theory Spec2Isabelle
  imports Main "HOL-Library.Word" "HOL-Library.Char_ord"
begin

unbundle bit_operations_syntax

section \<open>Data model of json.h\<close>

text \<open>
  The embedding follows \<^verbatim>\<open>src/json.h\<close>. Pointers into the JSON text are offsets into
  the input string; pointers into the node buffer are indices into the list of nodes
  written so far; a null pointer is \<open>None\<close>. Every place where the C++ code asserts,
  dereferences a null pointer or reads outside a buffer is a value of \<open>error\<close>.
\<close>

datatype error =
    AssertFailed        \<comment> \<open>a \<^verbatim>\<open>JSON_ASSERT\<close> / \<^verbatim>\<open>JSON_ASSERTF\<close> fails (the program exits)\<close>
  | NullDeref           \<comment> \<open>a member is read through a null node pointer\<close>
  | OutOfBounds         \<comment> \<open>a byte, node or table entry outside its array is read\<close>
  | OutOfFuel           \<comment> \<open>the recursion bound of the model ran out (not a behaviour of the code)\<close>

datatype JsonTokenType =
    INVALID_TOK
  | JSON_ARRAY_BEGIN
  | JSON_OBJECT_BEGIN
  | JSON_ARRAY_END
  | JSON_OBJECT_END
  | JSON_COLON
  | JSON_COMMA
  | JSON_TRUE_TOK
  | JSON_FALSE_TOK
  | JSON_NULL_TOK
  | JSON_NUMBER_TOK
  | JSON_STRING_TOK
  | JSON_FLOAT_HEX_TOK
  | JSON_DOUBLE_HEX_TOK
  | JSON_KEY_TOK
  | JSON_EOF_TOK
  | SYNTACTIC_ERROR_TOK

record JsonToken =
  tok_data :: nat
  tok_length :: nat
  tok_type :: JsonTokenType

datatype JsonNodeType =
    INVALID
  | JSON_ARRAY
  | JSON_OBJECT
  | JSON_TRUE
  | JSON_FALSE
  | JSON_NULL
  | JSON_NUMBER
  | JSON_FLOAT_HEX
  | JSON_DOUBLE_HEX
  | JSON_STRING
  | JSON_KEY
  | JSON_EOF
  | SYNTACTIC_ERROR

text \<open>
  \<^verbatim>\<open>struct JsonNode\<close>. The C++ union of \<^verbatim>\<open>as_sv\<close> and \<^verbatim>\<open>count\<close> is kept as separate
  fields: the code reads \<^verbatim>\<open>count\<close> only from array and object nodes and \<^verbatim>\<open>as_sv\<close>
  only from the others (\<^verbatim>\<open>GetCount\<close> and \<^verbatim>\<open>GetAsStringView\<close> assert it).
\<close>

record JsonNode =
  as_sv_data :: nat
  as_sv_length :: nat
  count :: nat
  type :: JsonNodeType
  nxt :: "nat option"

datatype JsonErrorCode =
    NOT_DONE
  | VALID_JSON
  | INVALID_TOKENS
  | SYNTACTIC_ERRORS
  | CAPACITY_EXCEEDED

subsection \<open>Classification predicates and node relations\<close>

definition IsKey :: "JsonNode \<Rightarrow> bool" where
  "IsKey n = (type n = JSON_KEY)"

definition IsInvalid :: "JsonNode \<Rightarrow> bool" where
  "IsInvalid n = (type n = INVALID \<or> type n = SYNTACTIC_ERROR)"

definition IsValue :: "JsonNode \<Rightarrow> bool" where
  "IsValue n = (\<not> IsKey n \<and> \<not> IsInvalid n)"

definition IsArray :: "JsonNode \<Rightarrow> bool" where
  "IsArray n = (type n = JSON_ARRAY)"

definition IsObject :: "JsonNode \<Rightarrow> bool" where
  "IsObject n = (type n = JSON_OBJECT)"

definition IsComplex :: "JsonNode \<Rightarrow> bool" where
  "IsComplex n = (IsArray n \<or> IsObject n)"

definition IsEOF :: "JsonNode \<Rightarrow> bool" where
  "IsEOF n = (type n = JSON_EOF)"

definition IsNumber :: "JsonNode \<Rightarrow> bool" where
  "IsNumber n = (type n = JSON_NUMBER \<or> type n = JSON_FLOAT_HEX \<or> type n = JSON_DOUBLE_HEX)"

definition IsBool :: "JsonNode \<Rightarrow> bool" where
  "IsBool n = (type n = JSON_TRUE \<or> type n = JSON_FALSE)"

definition IsString :: "JsonNode \<Rightarrow> bool" where
  "IsString n = (type n = JSON_STRING \<or> type n = JSON_KEY)"

definition IsNull :: "JsonNode \<Rightarrow> bool" where
  "IsNull n = (type n = JSON_NULL)"

text \<open>
  The relations take the node and its index \<open>i\<close> in the buffer (the C++ \<^verbatim>\<open>this\<close>);
  \<^verbatim>\<open>this + 1\<close> is the index \<open>i + 1\<close>.
\<close>

definition GetFirst :: "JsonNode \<Rightarrow> nat \<Rightarrow> nat option" where
  "GetFirst n i = (if IsComplex n \<and> count n \<noteq> 0 then Some (i + 1) else None)"

definition GetValue :: "JsonNode \<Rightarrow> nat \<Rightarrow> nat option" where
  "GetValue n i = (if IsKey n then Some (i + 1) else if IsValue n then Some i else None)"

definition GetNext :: "JsonNode \<Rightarrow> nat option" where
  "GetNext n = nxt n"

definition GetCount :: "JsonNode \<Rightarrow> error + nat" where
  "GetCount n = (if IsComplex n then Inr (count n) else Inl AssertFailed)"

definition GetAsStringView :: "JsonNode \<Rightarrow> error + nat \<times> nat" where
  "GetAsStringView n =
     (if type n \<noteq> JSON_ARRAY \<and> type n \<noteq> JSON_OBJECT
      then Inr (as_sv_data n, as_sv_length n) else Inl AssertFailed)"


section \<open>Value codec (namespace util)\<close>

type_synonym u8 = "8 word"
type_synonym u32 = "32 word"
type_synonym u64 = "64 word"
type_synonym s64 = "64 word"

subsection \<open>Bounded decimal integer parsing\<close>

text \<open>
  \<^verbatim>\<open>to_u64(s, end, out)\<close> and \<^verbatim>\<open>to_s64(s, end, out)\<close> get the bytes of the range
  \<^verbatim>\<open>[s, end)\<close> as a string. The result pairs the returned count with the value stored
  through \<^verbatim>\<open>out\<close> (it is stored on failure too). The accumulator is a 64-bit word:
  \<^verbatim>\<open>n * 10 + digit\<close> wraps around (for the signed \<^verbatim>\<open>s64\<close> accumulator the wrap-around of
  two's complement hardware is taken).
\<close>

definition isDigit :: "char \<Rightarrow> bool" where
  "isDigit ch = (CHR ''0'' \<le> ch \<and> ch \<le> CHR ''9'')"

definition digit_value :: "char \<Rightarrow> nat" where
  \<comment> \<open>\<^verbatim>\<open>*p - '0'\<close>, evaluated for digits only\<close>
  "digit_value ch = of_char ch - of_char CHR ''0''"

fun digit_run :: "string \<Rightarrow> u64 \<Rightarrow> nat \<Rightarrow> nat \<times> u64" where
  \<comment> \<open>\<^verbatim>\<open>while (p != end && *p >= '0' && *p <= '9') { n = n * 10 + (*p - '0'); ++p; }\<close>
     with \<open>k\<close> the number of bytes passed so far\<close>
  "digit_run [] n k = (k, n)"
| "digit_run (c # cs) n k =
     (if CHR ''0'' \<le> c \<and> c \<le> CHR ''9''
      then digit_run cs (n * 10 + of_nat (digit_value c)) (k + 1)
      else (k, n))"

fun memcmp :: "string \<Rightarrow> string \<Rightarrow> int" where
  \<comment> \<open>\<^verbatim>\<open>memcmp\<close> of two byte ranges of the same length, bytes compared as unsigned\<close>
  "memcmp (x # xs) (y # ys) =
     (if x = y then memcmp xs ys else if x < y then - 1 else 1)"
| "memcmp _ _ = 0"

definition to_u64 :: "string \<Rightarrow> nat \<times> u64" where
  "to_u64 bs =
     (let (result, n) = digit_run bs 0 0 in
      (if result > 20 \<or> (result = 20 \<and> memcmp (take 20 bs) ''18446744073709551615'' > 0)
       then 0 else result, n))"

definition to_s64 :: "string \<Rightarrow> error + nat \<times> s64" where
  \<comment> \<open>\<^verbatim>\<open>*p == '-'\<close> is read before any comparison with \<^verbatim>\<open>end\<close>\<close>
  "to_s64 bs =
     (case bs of
        [] \<Rightarrow> Inl OutOfBounds
      | c # cs \<Rightarrow>
          let sign = (c = CHR ''-'');
              (k, n) = digit_run (if sign then cs else bs) 0 0;
              result = (if sign then k + 1 else k)
          in Inr (if (\<not> sign \<and> (result > 19 \<or>
                        (result = 19 \<and> memcmp (take 19 bs) ''9223372036854775807'' > 0)))
                   \<or> (sign \<and> (result > 20 \<or>
                        (result = 20 \<and> memcmp (take 20 bs) ''-9223372036854775808'' > 0)))
                  then 0 else result,
                  if sign then - n else n))"

subsection \<open>Hexadecimal bit patterns\<close>

definition hex_digit_to_u32 :: "char \<Rightarrow> error + u32" where
  "hex_digit_to_u32 ch =
     (if CHR ''0'' \<le> ch \<and> ch \<le> CHR ''9'' then Inr (of_nat (of_char ch) - 48)
      else if CHR ''a'' \<le> ch \<and> ch \<le> CHR ''f'' then Inr (of_nat (of_char ch) - 87)
      else if CHR ''A'' \<le> ch \<and> ch \<le> CHR ''F'' then Inr (of_nat (of_char ch) - 55)
      else Inl AssertFailed)"

fun hex_accumulate :: "nat \<Rightarrow> string \<Rightarrow> u32 \<Rightarrow> error + u32" where
  \<comment> \<open>\<^verbatim>\<open>for (count = 0; count < k; count++) x = x * 16 + hex_digit_to_u32(*p++);\<close>
     with \<^verbatim>\<open>u32 x\<close>\<close>
  "hex_accumulate 0 bs x = Inr x"
| "hex_accumulate (Suc k) [] x = Inl OutOfBounds"
| "hex_accumulate (Suc k) (c # cs) x =
     (case hex_digit_to_u32 c of
        Inl e \<Rightarrow> Inl e
      | Inr d \<Rightarrow> hex_accumulate k cs (x * 16 + d))"

definition hex_to_float :: "string \<Rightarrow> error + u32" where
  \<comment> \<open>the argument holds the bytes from \<^verbatim>\<open>s\<close> on; the result is the bit pattern of the
     \<^verbatim>\<open>f32\<close>\<close>
  "hex_to_float s = hex_accumulate 8 (drop 2 s) 0"

text \<open>
  \<^verbatim>\<open>hex_to_double\<close> declares its accumulator as \<^verbatim>\<open>u32 x\<close> and then copies
  \<^verbatim>\<open>sizeof(f64)\<close> = 8 bytes from \<^verbatim>\<open>&x\<close>. The four bytes that follow \<^verbatim>\<open>x\<close> in memory
  are not part of it; they are the parameter \<open>beyond\<close>. The byte order is the
  little-endian one: \<^verbatim>\<open>x\<close> supplies the low half of the pattern.
\<close>

definition hex_to_double :: "u32 \<Rightarrow> string \<Rightarrow> error + u64" where
  "hex_to_double beyond s =
     (case hex_accumulate 16 (drop 2 s) 0 of
        Inl e \<Rightarrow> Inl e
      | Inr x \<Rightarrow> Inr (word_cat beyond x))"

subsection \<open>UTF-8 sequence length\<close>

text \<open>
  \<^verbatim>\<open>utf8_len(char ch)\<close> computes \<^verbatim>\<open>(u8)(ch >> 3)\<close> on a plain \<^verbatim>\<open>char\<close>, which is taken
  to be signed (as on x86-64): the shift is arithmetic, so every byte from 0x80 on
  gives an index of 240 or more into the 32-entry table.
\<close>

definition length_from_msb :: "nat list" where
  "length_from_msb =
     [1, 1, 1, 1, 1, 1, 1, 1, 1, 1, 1, 1, 1, 1, 1, 1,
      0, 0, 0, 0, 0, 0, 0, 0,
      2, 2, 2, 2,
      3, 3,
      4,
      0]"

definition utf8_len :: "char \<Rightarrow> error + nat" where
  "utf8_len ch =
     (let c = unat (signed_drop_bit 3 (of_nat (of_char ch) :: u8)) in
      if c < length length_from_msb then Inr (length_from_msb ! c) else Inl OutOfBounds)"

subsection \<open>String unescaping to UTF-8\<close>

fun read_hex4 :: "nat \<Rightarrow> string \<Rightarrow> u32 \<Rightarrow> error + u32" where
  \<comment> \<open>\<^verbatim>\<open>for (count = 0; count < 4; count++) { JSON_ASSERT(p < end);
     codepoint = codepoint * 16 + hex_digit_to_u32(*p++); }\<close>\<close>
  "read_hex4 0 bs cp = Inr cp"
| "read_hex4 (Suc k) [] cp = Inl AssertFailed"
| "read_hex4 (Suc k) (c # cs) cp =
     (case hex_digit_to_u32 c of
        Inl e \<Rightarrow> Inl e
      | Inr d \<Rightarrow> read_hex4 k cs (cp * 16 + d))"

definition utf8_encode :: "u32 \<Rightarrow> string" where
  \<comment> \<open>the bytes the branch \<^verbatim>\<open>if (out)\<close> writes for a code point below 0x110000\<close>
  "utf8_encode cp =
     (if cp < 0x80 then [char_of (unat cp)]
      else if cp < 0x800 then
        [char_of (unat ((drop_bit 6 cp AND 0x1f) OR 0xc0)),
         char_of (unat ((cp AND 0x3f) OR 0x80))]
      else if cp < 0x10000 then
        [char_of (unat ((drop_bit 12 cp AND 0x0f) OR 0xe0)),
         char_of (unat ((drop_bit 6 cp AND 0x3f) OR 0x80)),
         char_of (unat ((cp AND 0x3f) OR 0x80))]
      else if cp < 0x110000 then
        [char_of (unat ((drop_bit 18 cp AND 0x07) OR 0xf0)),
         char_of (unat ((drop_bit 12 cp AND 0x3f) OR 0x80)),
         char_of (unat ((drop_bit 6 cp AND 0x3f) OR 0x80)),
         char_of (unat ((cp AND 0x3f) OR 0x80))]
      else [])"

definition utf8_measure :: "u32 \<Rightarrow> nat" where
  \<comment> \<open>\<^verbatim>\<open>1 + (cp >= 0x80) + (cp >= 0x800) + (cp >= 0x10000)\<close>\<close>
  "utf8_measure cp =
     1 + (if cp \<ge> 0x80 then 1 else 0) + (if cp \<ge> 0x800 then 1 else 0)
       + (if cp \<ge> 0x10000 then 1 else 0)"

definition named_escape :: "char \<Rightarrow> char option" where
  \<comment> \<open>the \<^verbatim>\<open>switch (ch)\<close> over \<^verbatim>\<open>0 a b t v f r n\<close>\<close>
  "named_escape ch =
     (if ch = CHR ''0'' then Some (CHR 0x00)
      else if ch = CHR ''a'' then Some (CHR 0x07)
      else if ch = CHR ''b'' then Some (CHR 0x08)
      else if ch = CHR ''t'' then Some (CHR 0x09)
      else if ch = CHR ''v'' then Some (CHR 0x0B)
      else if ch = CHR ''f'' then Some (CHR 0x0C)
      else if ch = CHR ''r'' then Some (CHR 0x0D)
      else if ch = CHR ''n'' then Some (CHR 0x0A)
      else None)"

definition read_codepoint :: "string \<Rightarrow> error + u32 \<times> nat" where
  \<comment> \<open>the branch \<^verbatim>\<open>ch == 'u'\<close> up to the assertion on the code point; the argument
     holds the bytes after the \<^verbatim>\<open>u\<close>, the result the code point and the number of
     bytes \<^verbatim>\<open>p\<close> has moved. In the surrogate case the code combines \<^verbatim>\<open>codepoint\<close>
     with itself (\<^verbatim>\<open>(u32)codepoint - 0xdc00\<close>), not with \<^verbatim>\<open>extra\<close>.\<close>
  "read_codepoint bs =
     (case read_hex4 4 bs 0 of
        Inl e \<Rightarrow> Inl e
      | Inr codepoint \<Rightarrow>
          if 0xd800 \<le> codepoint \<and> codepoint \<le> 0xdbff then
            (case read_hex4 4 (drop 6 bs) 0 of
               Inl e \<Rightarrow> Inl e
             | Inr extra \<Rightarrow>
                 let codepoint' = push_bit 10 (codepoint - 0xd800) + (codepoint - 0xdc00) + 0x10000
                 in if codepoint' < 0x110000 then Inr (codepoint', 10)
                    else Inl AssertFailed)
          else if codepoint < 0x110000 then Inr (codepoint, 4)
          else Inl AssertFailed)"

text \<open>
  \<^verbatim>\<open>json_string_to_utf8(dest, src, length)\<close>: \<open>dest\<close> tells whether the destination
  pointer is non-null, \<open>src\<close> holds the \<^verbatim>\<open>length\<close> bytes from \<^verbatim>\<open>src\<close> on, \<open>out\<close> the
  bytes written so far and \<open>len\<close> the counter of the measuring mode. The result is
  the returned count and the bytes written.
\<close>

function json_string_to_utf8_loop ::
  "bool \<Rightarrow> string \<Rightarrow> string \<Rightarrow> nat \<Rightarrow> error + nat \<times> string" where
  "json_string_to_utf8_loop dest src out len =
     (case src of
        [] \<Rightarrow> Inr (if dest then length out else len, out)
      | ch # rest \<Rightarrow>
          if ch = CHR 0x5C then
            (case rest of
               [] \<Rightarrow> Inl OutOfBounds
             | e # rest2 \<Rightarrow>
                 if e = CHR 0x5C \<or> e = CHR ''/'' \<or> e = CHR 0x22 then
                   (if dest then json_string_to_utf8_loop dest rest2 (out @ [e]) len
                    else json_string_to_utf8_loop dest rest2 out (len + 1))
                 else if e = CHR ''u'' then
                   (case read_codepoint rest2 of
                      Inl err \<Rightarrow> Inl err
                    | Inr (codepoint, k) \<Rightarrow>
                        if dest
                        then json_string_to_utf8_loop dest (drop k rest2)
                               (out @ utf8_encode codepoint) len
                        else json_string_to_utf8_loop dest (drop k rest2)
                               out (len + utf8_measure codepoint))
                 else
                   (case named_escape e of
                      None \<Rightarrow> Inl AssertFailed
                    | Some b \<Rightarrow>
                        if dest then json_string_to_utf8_loop dest rest2 (out @ [b]) len
                        else json_string_to_utf8_loop dest rest2 out (len + 1)))
          else
            (if dest then json_string_to_utf8_loop dest rest (out @ [ch]) len
             else json_string_to_utf8_loop dest rest out (len + 1)))"
  by pat_completeness auto
termination
  by (relation "measure (\<lambda>(dest, src, out, len). length src)") auto

definition json_string_to_utf8 :: "bool \<Rightarrow> string \<Rightarrow> error + nat \<times> string" where
  "json_string_to_utf8 dest src = json_string_to_utf8_loop dest src [] 0"

subsection \<open>Typed extraction of strings\<close>

definition GetAsString :: "string \<Rightarrow> JsonNode \<Rightarrow> bool \<Rightarrow> error + nat \<times> string" where
  \<comment> \<open>\<open>text\<close> is the JSON input the node points into; \<open>dest\<close> tells whether the
     destination pointer is non-null. \<^verbatim>\<open>as_sv.length - 2\<close> is a \<^verbatim>\<open>size_t\<close>: below 2 it
     wraps to a length no buffer has.\<close>
  "GetAsString text n dest =
     (if \<not> dest then Inl AssertFailed
      else if type n = JSON_STRING \<or> type n = JSON_KEY then
        (if as_sv_length n < 2 \<or> as_sv_data n + as_sv_length n > length text
         then Inl OutOfBounds
         else json_string_to_utf8 dest (take (as_sv_length n - 2) (drop (as_sv_data n + 1) text)))
      else Inr (0, []))"

section \<open>Path resolver\<close>

text \<open>
  \<^verbatim>\<open>get_value_node(node_begin, path, path_string_length)\<close> over the node buffer \<open>nodes\<close>;
  \<open>text\<close> is the JSON input the nodes' string views point into. The current node is
  an index or null; \<^verbatim>\<open>p\<close> is an offset into \<open>path\<close> and \<^verbatim>\<open>end\<close> its length. The
  code keeps \<^verbatim>\<open>len\<close> equal to \<^verbatim>\<open>end - p\<close> throughout, so \<^verbatim>\<open>len\<close> is written as
  \<open>length path - p\<close>. Following \<^verbatim>\<open>next\<close> links through a buffer that holds a cycle
  does not return: the two loops that may do so are partial functions whose value
  \<open>None\<close> stands for that.
\<close>

type_synonym node_ptr = "nat option"

fun skip_to_item :: "JsonNode list \<Rightarrow> nat \<Rightarrow> nat \<Rightarrow> error + node_ptr" where
  \<comment> \<open>\<^verbatim>\<open>for (j = 0; j < idx; j++) { current_node = current_node->GetNext();
     if (current_node == nullptr) break; }\<close>\<close>
  "skip_to_item nodes 0 cur = Inr (Some cur)"
| "skip_to_item nodes (Suc j) cur =
     (if cur < length nodes
      then (case GetNext (nodes ! cur) of
              None \<Rightarrow> Inr None
            | Some k \<Rightarrow> skip_to_item nodes j k)
      else Inl OutOfBounds)"

definition bytes_at :: "string \<Rightarrow> nat \<Rightarrow> nat \<Rightarrow> string option" where
  \<comment> \<open>the \<open>n\<close> bytes from offset \<open>off\<close>, if the buffer holds them\<close>
  "bytes_at buf off n = (if off + n \<le> length buf then Some (take n (drop off buf)) else None)"

definition match_key :: "string \<Rightarrow> string \<Rightarrow> nat \<Rightarrow> JsonNode \<Rightarrow> error + nat option" where
  \<comment> \<open>the two \<^verbatim>\<open>memcmp\<close> tests of the key loop: the number of path bytes a match
     consumes, or none. \<^verbatim>\<open>node_length - 2\<close> becomes the \<^verbatim>\<open>size_t\<close> length of the
     second \<^verbatim>\<open>memcmp\<close>, which for a length below 2 is larger than any buffer.\<close>
  "match_key text path p n =
     (let node_data = as_sv_data n; node_length = as_sv_length n; len = length path - p in
      if path ! p = CHR 0x22 \<and> len \<ge> node_length then
        (case (bytes_at path p node_length, bytes_at text node_data node_length) of
           (Some a, Some b) \<Rightarrow> Inr (if memcmp a b = 0 then Some node_length else None)
         | _ \<Rightarrow> Inl OutOfBounds)
      else if path ! p \<noteq> CHR 0x22 \<and> int len \<ge> int node_length - 2 then
        (if node_length < 2 then Inl OutOfBounds
         else case (bytes_at path p (node_length - 2),
                    bytes_at text (node_data + 1) (node_length - 2)) of
           (Some a, Some b) \<Rightarrow> Inr (if memcmp a b = 0 then Some (node_length - 2) else None)
         | _ \<Rightarrow> Inl OutOfBounds)
      else Inr None)"

partial_function (option) key_loop ::
  "JsonNode list \<Rightarrow> string \<Rightarrow> string \<Rightarrow> nat \<Rightarrow> nat \<Rightarrow> (error + node_ptr \<times> nat) option" where
  \<comment> \<open>\<^verbatim>\<open>while (p < end && !current_node->IsEOF() && current_node->IsKey())\<close>; the result
     is the current node and \<^verbatim>\<open>p\<close> when the loop is left\<close>
  "key_loop nodes text path cur p =
     (if \<not> p < length path then Some (Inr (Some cur, p))
      else if \<not> cur < length nodes then Some (Inl OutOfBounds)
      else if IsEOF (nodes ! cur) \<or> \<not> IsKey (nodes ! cur) then Some (Inr (Some cur, p))
      else case match_key text path p (nodes ! cur) of
             Inl e \<Rightarrow> Some (Inl e)
           | Inr (Some k) \<Rightarrow> Some (Inr (Some (cur + 1), p + k))
           | Inr None \<Rightarrow>
               (case GetNext (nodes ! cur) of
                  None \<Rightarrow> Some (Inr (None, p))
                | Some nx \<Rightarrow> key_loop nodes text path nx p))"

definition byte_is :: "string \<Rightarrow> nat \<Rightarrow> char \<Rightarrow> bool" where
  \<comment> \<open>\<^verbatim>\<open>p != end && *p == c\<close>\<close>
  "byte_is buf p c = (p \<noteq> length buf \<and> buf ! p = c)"

definition array_index :: "bool \<Rightarrow> u64 \<Rightarrow> nat \<Rightarrow> nat" where
  \<comment> \<open>\<^verbatim>\<open>idx = (idx >= count) ? (idx % count) : idx;
     idx = (sign && idx != 0) ? (count - idx) : idx;\<close>\<close>
  "array_index sign idx cnt =
     (let idx1 = (if unat idx \<ge> cnt then unat idx mod cnt else unat idx)
      in if sign \<and> idx1 \<noteq> 0 then cnt - idx1 else idx1)"

partial_function (option) get_value_node_loop ::
  "JsonNode list \<Rightarrow> string \<Rightarrow> string \<Rightarrow> node_ptr \<Rightarrow> nat \<Rightarrow> (error + node_ptr) option" where
  \<comment> \<open>\<^verbatim>\<open>while (p < end && !current_node->IsEOF() && current_node != nullptr)\<close>: the
     node is read before it is compared with null\<close>
  "get_value_node_loop nodes text path current_node p =
     (if \<not> p < length path then Some (Inr current_node)
      else case current_node of
        None \<Rightarrow> Some (Inl NullDeref)
      | Some cur \<Rightarrow>
          if \<not> cur < length nodes then Some (Inl OutOfBounds)
          else if IsEOF (nodes ! cur) then Some (Inr (Some cur))
          else if path ! p = CHR ''['' \<and> IsArray (nodes ! cur) then
            (if count (nodes ! cur) = 0 then Some (Inr None)
             else
               let sign = byte_is path (p + 1) CHR ''-'';
                   p2 = (if sign then p + 2 else p + 1);
                   (idx_len, idx) = to_u64 (drop p2 path)
               in if idx_len = 0 then Some (Inr None)
                  else if byte_is path (p2 + idx_len) CHR '']'' then
                    (case skip_to_item nodes (array_index sign idx (count (nodes ! cur))) (cur + 1) of
                       Inl e \<Rightarrow> Some (Inl e)
                     | Inr nd \<Rightarrow> get_value_node_loop nodes text path nd (p2 + idx_len + 1))
                  else Some (Inr None))
          else if path ! p = CHR ''.'' \<and> IsObject (nodes ! cur) then
            (if count (nodes ! cur) = 0 then Some (Inr None)
             else case key_loop nodes text path (cur + 1) (p + 1) of
                    None \<Rightarrow> None
                  | Some (Inl e) \<Rightarrow> Some (Inl e)
                  | Some (Inr (nd, p')) \<Rightarrow> get_value_node_loop nodes text path nd p')
          else Some (Inr None))"

definition get_value_node ::
  "JsonNode list \<Rightarrow> string \<Rightarrow> nat \<Rightarrow> string \<Rightarrow> (error + node_ptr) option" where
  "get_value_node nodes text node_begin path =
     (if \<not> node_begin < length nodes then Some (Inl OutOfBounds)
      else if \<not> (IsArray (nodes ! node_begin) \<or> IsObject (nodes ! node_begin))
      then Some (Inl AssertFailed)
      else get_value_node_loop nodes text path (Some node_begin) 0)"

section \<open>Sibling chains and example documents\<close>

text \<open>
  \<open>chain_from nodes i es\<close>: following the \<^verbatim>\<open>next\<close> links from node \<open>i\<close> visits exactly the
  nodes \<open>es\<close>, in that order, and the last of them has no \<^verbatim>\<open>next\<close>.
\<close>

fun chain_from :: "JsonNode list \<Rightarrow> nat \<Rightarrow> nat list \<Rightarrow> bool" where
  "chain_from nodes i [] = False"
| "chain_from nodes i [e] = (e = i \<and> i < length nodes \<and> nxt (nodes ! i) = None)"
| "chain_from nodes i (e # e' # es) =
     (e = i \<and> i < length nodes \<and> nxt (nodes ! i) = Some e' \<and> chain_from nodes e' (e' # es))"


text \<open>
  The node buffers of \<^verbatim>\<open>[7,8]\<close>, \<^verbatim>\<open>{"a":1}\<close> and \<^verbatim>\<open>{"a":1,"ab":2}\<close>.
\<close>

definition doc_two_elements :: "JsonNode list" where
  "doc_two_elements =
     [\<lparr>as_sv_data = 0, as_sv_length = 1, count = 2, type = JSON_ARRAY, nxt = None\<rparr>,
      \<lparr>as_sv_data = 1, as_sv_length = 1, count = 0, type = JSON_NUMBER, nxt = Some 2\<rparr>,
      \<lparr>as_sv_data = 3, as_sv_length = 1, count = 0, type = JSON_NUMBER, nxt = None\<rparr>,
      \<lparr>as_sv_data = 5, as_sv_length = 0, count = 0, type = JSON_EOF, nxt = None\<rparr>]"

definition doc_one_key :: "JsonNode list" where
  "doc_one_key =
     [\<lparr>as_sv_data = 0, as_sv_length = 1, count = 1, type = JSON_OBJECT, nxt = None\<rparr>,
      \<lparr>as_sv_data = 1, as_sv_length = 3, count = 0, type = JSON_KEY, nxt = None\<rparr>,
      \<lparr>as_sv_data = 5, as_sv_length = 1, count = 0, type = JSON_NUMBER, nxt = None\<rparr>,
      \<lparr>as_sv_data = 7, as_sv_length = 0, count = 0, type = JSON_EOF, nxt = None\<rparr>]"

definition doc_prefix_keys :: "JsonNode list" where
  "doc_prefix_keys =
     [\<lparr>as_sv_data = 0, as_sv_length = 1, count = 2, type = JSON_OBJECT, nxt = None\<rparr>,
      \<lparr>as_sv_data = 1, as_sv_length = 3, count = 0, type = JSON_KEY, nxt = Some 3\<rparr>,
      \<lparr>as_sv_data = 5, as_sv_length = 1, count = 0, type = JSON_NUMBER, nxt = Some 4\<rparr>,
      \<lparr>as_sv_data = 7, as_sv_length = 4, count = 0, type = JSON_KEY, nxt = None\<rparr>,
      \<lparr>as_sv_data = 12, as_sv_length = 1, count = 0, type = JSON_NUMBER, nxt = None\<rparr>,
      \<lparr>as_sv_data = 14, as_sv_length = 0, count = 0, type = JSON_EOF, nxt = None\<rparr>]"


section \<open>Scanner\<close>

text \<open>
  The scanner works on the input \<open>s\<close> (\<^verbatim>\<open>m_begin\<close> is offset 0, \<^verbatim>\<open>m_end\<close> is
  \<open>length s\<close>) and on \<^verbatim>\<open>m_pos\<close>. The matchers of this section neither read nor write
  the line counter and the error log; \<^verbatim>\<open>getNextToken\<close>, which writes both, follows
  with the parser state in the next section. A read of a byte at or beyond \<^verbatim>\<open>m_end\<close>
  is the error \<open>OutOfBounds\<close>.
\<close>

definition isHexDigit :: "char \<Rightarrow> bool" where
  "isHexDigit ch =
     ((CHR ''0'' \<le> ch \<and> ch \<le> CHR ''9'') \<or> (CHR ''a'' \<le> ch \<and> ch \<le> CHR ''f'')
      \<or> (CHR ''A'' \<le> ch \<and> ch \<le> CHR ''F''))"

definition isWhitespace :: "char \<Rightarrow> bool" where
  "isWhitespace ch = (ch = CHR '' '' \<or> ch = CHR 0x09 \<or> ch = CHR 0x0A \<or> ch = CHR 0x0D)"

definition isStructural :: "char \<Rightarrow> bool" where
  "isStructural ch =
     (ch = CHR ''{'' \<or> ch = CHR ''['' \<or> ch = CHR ''}'' \<or> ch = CHR '']'' \<or> ch = CHR '':''
      \<or> ch = CHR '','')"

definition isValid :: "char \<Rightarrow> bool" where
  "isValid ch =
     (isWhitespace ch \<or> isStructural ch \<or> isDigit ch \<or> ch = CHR ''t'' \<or> ch = CHR ''f''
      \<or> ch = CHR ''n'')"

function skip_while :: "(char \<Rightarrow> bool) \<Rightarrow> string \<Rightarrow> nat \<Rightarrow> nat" where
  \<comment> \<open>\<^verbatim>\<open>while (m_pos != m_end && P(*m_pos)) ++m_pos;\<close> started at or before \<^verbatim>\<open>m_end\<close>\<close>
  "skip_while P s p = (if p < length s \<and> P (s ! p) then skip_while P s (Suc p) else p)"
  by pat_completeness auto
termination
  by (relation "measure (\<lambda>(P, s, p). length s - p)") auto

declare skip_while.simps [simp del]

definition skipWhitespace :: "string \<Rightarrow> nat \<Rightarrow> nat" where
  "skipWhitespace s p = skip_while isWhitespace s p"

definition matchFloatHex :: "string \<Rightarrow> nat \<Rightarrow> nat \<times> nat" where
  \<comment> \<open>the hex digits are counted in a \<^verbatim>\<open>u8\<close>, so the count is taken modulo 256;
     the result is the return code and the new \<^verbatim>\<open>m_pos\<close>\<close>
  "matchFloatHex s p =
     (let p' = skip_while isHexDigit s p; cnt = (p' - p) mod 256
      in (if cnt = 8 then 1 else if cnt = 16 then 2 else 0, p'))"

definition do_digits :: "string \<Rightarrow> nat \<Rightarrow> bool \<times> nat" where
  \<comment> \<open>the lambda \<^verbatim>\<open>do_digits\<close> of \<^verbatim>\<open>matchNumber\<close>: whether \<^verbatim>\<open>result\<close> stays true, and
     \<^verbatim>\<open>m_pos\<close>\<close>
  "do_digits s p =
     (if p \<noteq> length s \<and> isDigit (s ! p) then (True, skip_while isDigit s (p + 1))
      else (False, p))"

lemma skip_while_ge: "p \<le> skip_while P s p"
proof (induction P s p rule: skip_while.induct)
  case (1 P s p)
  show ?case
  proof (cases "p < length s \<and> P (s ! p)")
    case True
    with "1.IH" have "Suc p \<le> skip_while P s (Suc p)" by simp
    moreover have "skip_while P s p = skip_while P s (Suc p)"
      using True by (subst skip_while.simps) simp
    ultimately show ?thesis by simp
  next
    case False
    then have "skip_while P s p = p" by (subst skip_while.simps) auto
    then show ?thesis by simp
  qed
qed

function number_tail :: "string \<Rightarrow> nat \<Rightarrow> bool \<times> nat" where
  \<comment> \<open>\<^verbatim>\<open>while (result && !fraction_done && m_pos < m_end) switch (*m_pos) ...\<close>\<close>
  "number_tail s p =
     (if p < length s then
        (if s ! p = CHR ''.'' then
           (case do_digits s (p + 1) of
              (True, p') \<Rightarrow> number_tail s p'
            | (False, p') \<Rightarrow> (False, p'))
         else if s ! p = CHR ''e'' \<or> s ! p = CHR ''E'' then
           do_digits s (if byte_is s (p + 1) CHR ''-'' \<or> byte_is s (p + 1) CHR ''+''
                        then p + 2 else p + 1)
         else (True, p))
      else (True, p))"
  by pat_completeness auto
termination
proof (relation "measure (\<lambda>(s, p). length s - p)", goal_cases)
  case 1
  show ?case by simp
next
  case (2 s p x y)
  then have "y = skip_while isDigit s (p + 1 + 1)"
    by (auto simp: do_digits_def split: if_splits)
  then have "p < y" using skip_while_ge [of "p + 1 + 1" isDigit s] by simp
  with 2 show ?case by simp
qed

declare number_tail.simps [simp del]

definition matchNumber :: "string \<Rightarrow> nat \<Rightarrow> error + bool \<times> nat" where
  \<comment> \<open>\<^verbatim>\<open>char ch = *m_pos\<close> after the optional minus sign is read without a test against
     \<^verbatim>\<open>m_end\<close>\<close>
  "matchNumber s p =
     (let p1 = (if byte_is s p CHR ''-'' then p + 1 else p) in
      if \<not> p1 < length s then Inl OutOfBounds
      else if s ! p1 = CHR ''0'' then Inr (number_tail s (p1 + 1))
      else if CHR ''1'' \<le> s ! p1 \<and> s ! p1 \<le> CHR ''9''
      then Inr (number_tail s (skip_while isDigit s (p1 + 1)))
      else Inr (False, p1))"

fun matchLiteral :: "string \<Rightarrow> nat \<Rightarrow> string \<Rightarrow> bool \<times> nat" where
  \<comment> \<open>\<^verbatim>\<open>for (i = 0; i < len; i++) { ++m_pos; if (m_pos == m_end || *m_pos != s[i]) ... }\<close>
     and, if all of the literal matched, one more \<^verbatim>\<open>++m_pos\<close>\<close>
  "matchLiteral s p [] = (True, p + 1)"
| "matchLiteral s p (c # cs) =
     (if p + 1 = length s \<or> s ! (p + 1) \<noteq> c then (False, p + 1)
      else matchLiteral s (p + 1) cs)"

fun hex_upto :: "nat \<Rightarrow> string \<Rightarrow> nat \<Rightarrow> nat" where
  \<comment> \<open>\<^verbatim>\<open>for (count = 0; count < 4; count++) { if (m_pos == m_end || !isHexDigit(*m_pos))
     break; ++m_pos; }\<close>\<close>
  "hex_upto 0 s p = p"
| "hex_upto (Suc k) s p =
     (if p = length s \<or> \<not> isHexDigit (s ! p) then p else hex_upto k s (p + 1))"

lemma hex_upto_ge: "p \<le> hex_upto k s p"
proof (induction k arbitrary: p)
  case 0
  show ?case by simp
next
  case (Suc k)
  from Suc [of "p + 1"] show ?case by simp
qed

definition simple_escape :: "char \<Rightarrow> bool" where
  "simple_escape ch =
     (ch = CHR 0x5C \<or> ch = CHR ''/'' \<or> ch = CHR 0x22 \<or> ch = CHR ''0''
      \<or> ch = CHR ''a'' \<or> ch = CHR ''b'' \<or> ch = CHR ''t'' \<or> ch = CHR ''v''
      \<or> ch = CHR ''f'' \<or> ch = CHR ''r'' \<or> ch = CHR ''n'')"

function string_loop :: "string \<Rightarrow> nat \<Rightarrow> error + nat" where
  \<comment> \<open>the \<^verbatim>\<open>while (m_pos < m_end && *m_pos != '\"')\<close> loop of \<^verbatim>\<open>matchString\<close>; the result
     is \<^verbatim>\<open>m_pos\<close> when the loop is left\<close>
  "string_loop s p =
     (if p < length s \<and> s ! p \<noteq> CHR 0x22 then
        (if (of_char (s ! p) :: nat) < 0x20 \<or> s ! p = CHR ''/'' \<or> s ! p = CHR 0x22 then Inr p
         else if s ! p = CHR 0x5C then
           (if \<not> p + 1 < length s then Inl OutOfBounds
            else if simple_escape (s ! (p + 1)) then string_loop s (p + 2)
            else if s ! (p + 1) = CHR ''u'' then string_loop s (hex_upto 4 s (p + 2))
            else Inr (p + 1))
         else if (of_char (s ! p) :: nat) < 0xFF then string_loop s (p + 1)
         else
           (case utf8_len (s ! p) of
              Inl e \<Rightarrow> Inl e
            | Inr len \<Rightarrow> if len = 0 then Inr p else string_loop s (p + len)))
      else Inr p)"
  by pat_completeness auto
termination
proof (relation "measure (\<lambda>(s, p). length s - p)", goal_cases)
  case 1
  show ?case by simp
next
  case (2 s p)
  then show ?case by auto
next
  case (3 s p)
  then show ?case using hex_upto_ge [of "p + 2" 4 s] by auto
next
  case (4 s p)
  then show ?case by auto
next
  case (5 s p x2)
  then show ?case by auto
qed

declare string_loop.simps [simp del]

definition matchString :: "string \<Rightarrow> nat \<Rightarrow> error + bool \<times> nat" where
  \<comment> \<open>\<^verbatim>\<open>m_pos\<close> advances past the closing quote only when the string is accepted\<close>
  "matchString s p =
     (case string_loop s (p + 1) of
        Inl e \<Rightarrow> Inl e
      | Inr p' \<Rightarrow>
          if p' > length s then Inl OutOfBounds
          else if byte_is s p' (CHR 0x22) then Inr (True, p' + 1)
          else Inr (False, p'))"

definition scan_token :: "string \<Rightarrow> nat \<Rightarrow> error + JsonTokenType \<times> nat" where
  \<comment> \<open>the classification of \<^verbatim>\<open>getNextToken\<close> on the byte at \<^verbatim>\<open>m_pos < m_end\<close>: the
     token type and \<^verbatim>\<open>m_pos\<close> after the matcher\<close>
  "scan_token s p =
     (let ch = s ! p in
      if isDigit ch \<or> ch = CHR ''-'' then
        (if p + 1 < length s \<and> s ! (p + 1) = CHR ''x'' then
           (case matchFloatHex s (p + 2) of
              (rc, p') \<Rightarrow>
                Inr (if rc = 0 then INVALID_TOK
                     else if rc = 1 then JSON_FLOAT_HEX_TOK else JSON_DOUBLE_HEX_TOK, p'))
         else
           (case matchNumber s p of
              Inl e \<Rightarrow> Inl e
            | Inr (r, p') \<Rightarrow> Inr (if r then JSON_NUMBER_TOK else INVALID_TOK, p')))
      else if ch = CHR 0x22 then
        (case matchString s p of
           Inl e \<Rightarrow> Inl e
         | Inr (r, p') \<Rightarrow> Inr (if r then JSON_STRING_TOK else INVALID_TOK, p'))
      else if ch = CHR ''t'' then
        (case matchLiteral s p ''rue'' of
           (r, p') \<Rightarrow> Inr (if r then JSON_TRUE_TOK else INVALID_TOK, p'))
      else if ch = CHR ''f'' then
        (case matchLiteral s p ''alse'' of
           (r, p') \<Rightarrow> Inr (if r then JSON_FALSE_TOK else INVALID_TOK, p'))
      else if ch = CHR ''n'' then
        (case matchLiteral s p ''ull'' of
           (r, p') \<Rightarrow> Inr (if r then JSON_NULL_TOK else INVALID_TOK, p'))
      else if ch = CHR ''{'' then Inr (JSON_OBJECT_BEGIN, p + 1)
      else if ch = CHR ''['' then Inr (JSON_ARRAY_BEGIN, p + 1)
      else if ch = CHR ''}'' then Inr (JSON_OBJECT_END, p + 1)
      else if ch = CHR '']'' then Inr (JSON_ARRAY_END, p + 1)
      else if ch = CHR '':'' then Inr (JSON_COLON, p + 1)
      else if ch = CHR '','' then Inr (JSON_COMMA, p + 1)
      else Inr (INVALID_TOK, p))"

definition skip_invalid :: "string \<Rightarrow> nat \<Rightarrow> error + nat" where
  \<comment> \<open>\<^verbatim>\<open>++m_pos; while (m_pos != m_end && !isValid(*m_pos)) ++m_pos;\<close> after an invalid
     token: when \<^verbatim>\<open>m_pos\<close> was \<^verbatim>\<open>m_end\<close> already, the loop reads beyond the input\<close>
  "skip_invalid s p =
     (if p + 1 > length s then Inl OutOfBounds
      else Inr (skip_while (\<lambda>ch. \<not> isValid ch) s (p + 1)))"

definition invalid_token_message :: "string \<Rightarrow> nat \<Rightarrow> string option" where
  \<comment> \<open>the message \<^verbatim>\<open>getNextToken\<close> passes to \<^verbatim>\<open>logInvalidTokenError\<close> in the branch
     it takes on the byte at \<^verbatim>\<open>m_pos\<close>; \<open>None\<close> in the last branch, which has no message\<close>
  "invalid_token_message s p =
     (let ch = s ! p in
      if isDigit ch \<or> ch = CHR ''-'' then
        (if p + 1 < length s \<and> s ! (p + 1) = CHR ''x''
         then Some ''floating point number in hexadecimal expected''
         else Some ''number expected'')
      else if ch = CHR 0x22 then Some ''string expected''
      else if ch = CHR ''t'' then Some ''true expected''
      else if ch = CHR ''f'' then Some ''false expected''
      else if ch = CHR ''n'' then Some ''null expected''
      else None)"

definition newlines :: "string \<Rightarrow> nat \<Rightarrow> nat \<Rightarrow> nat" where
  \<comment> \<open>the number of line feeds in \<open>s[p .. p')\<close>\<close>
  "newlines s p p' = length (filter (\<lambda>ch. ch = CHR 0x0A) (take (p' - p) (drop p s)))"

section \<open>The string scan, as a specification\<close>

text \<open>
  What the scan of a string makes of the bytes after the opening quote, read from left
  to right; \<open>k\<close> counts the bytes passed. \<open>Accepted k\<close>: the closing quote is the byte
  at offset \<open>k\<close>. \<open>Rejected k\<close>: the scan stops at offset \<open>k\<close>, at a control character, an
  unescaped \<^verbatim>\<open>/\<close>, the byte after a backslash that starts no escape, or at the end of
  the input. \<open>Unsettled\<close>: a \<^verbatim>\<open>\u\<close> with fewer than four hex digits behind it, a backslash
  as the last byte of the input, or a byte 0xFF; nothing is specified for these.
\<close>

datatype scan_outcome = Accepted nat | Rejected nat | Unsettled

function string_spec :: "string \<Rightarrow> nat \<Rightarrow> scan_outcome" where
  "string_spec [] k = Rejected k"
| "string_spec (c # cs) k =
     (if c = CHR 0x22 then Accepted k
      else if (of_char c :: nat) < 0x20 \<or> c = CHR ''/'' then Rejected k
      else if c = CHR 0x5C then
        (case cs of
           [] \<Rightarrow> Unsettled
         | e # es \<Rightarrow>
             if simple_escape e then string_spec es (k + 2)
             else if e = CHR ''u'' then
               (if 4 \<le> length es \<and> list_all isHexDigit (take 4 es)
                then string_spec (drop 4 es) (k + 6) else Unsettled)
             else Rejected (k + 1))
      else if c = CHR 0xFF then Unsettled
      else string_spec cs (k + 1))"
  by pat_completeness auto
termination
  by (relation "measure (\<lambda>(cs, k). length cs)") auto


section \<open>Builder (JsonParser)\<close>

text \<open>
  The state of \<^verbatim>\<open>class JsonParser\<close>. \<open>m_nodes\<close> holds the slots
  \<^verbatim>\<open>m_nodeBuffer[0 .. m_nodeCount)\<close>, so \<^verbatim>\<open>m_nodeCount\<close> is its length; the input and its
  end (\<^verbatim>\<open>m_begin\<close>, \<^verbatim>\<open>m_end\<close>) are the string \<open>s\<close> the functions take. \<open>m_errorLog\<close> is
  the text written to the log so far, so \<^verbatim>\<open>m_errorLogPos - &m_errorLog[0]\<close> is its
  length.
\<close>

record JsonParser =
  m_pos :: nat
  m_errorCode :: JsonErrorCode
  m_nodes :: "JsonNode list"
  m_tokenCapacity :: nat
  m_currentToken :: JsonToken
  m_currentLine :: u64
  m_errorLog :: string

function decimal :: "nat \<Rightarrow> string" where
  \<comment> \<open>the conversion \<^verbatim>\<open>%u\<close>\<close>
  "decimal n =
     (if n < 10 then [char_of (48 + n)]
      else decimal (n div 10) @ [char_of (48 + n mod 10)])"
  by pat_completeness auto

termination
  by (relation "measure id") auto

declare decimal.simps [simp del]

definition appendToErrorLog :: "string \<Rightarrow> JsonParser \<Rightarrow> error + JsonParser" where
  \<comment> \<open>\<open>message\<close> is the formatted text, \<^verbatim>\<open>written_count\<close> its length; the second
     assertion fails when the text does not fit into the 255 bytes\<close>
  "appendToErrorLog message st =
     (if length (m_errorLog st) + length message \<le> 255
      then Inr (st\<lparr>m_errorLog := m_errorLog st @ message\<rparr>)
      else Inl AssertFailed)"

definition line_text :: "JsonParser \<Rightarrow> string" where
  \<comment> \<open>\<^verbatim>\<open>(u32)m_currentLine\<close> under \<^verbatim>\<open>%u\<close>\<close>
  "line_text st = decimal (unat (ucast (m_currentLine st) :: u32))"

definition node_type_of :: "JsonTokenType \<Rightarrow> JsonNodeType option" where
  \<comment> \<open>the \<^verbatim>\<open>switch\<close> of the constructor \<^verbatim>\<open>JsonNode(const JsonToken&)\<close>; its default case
     asserts\<close>
  "node_type_of t =
     (case t of
        JSON_ARRAY_BEGIN \<Rightarrow> Some JSON_ARRAY
      | JSON_OBJECT_BEGIN \<Rightarrow> Some JSON_OBJECT
      | JSON_STRING_TOK \<Rightarrow> Some JSON_STRING
      | JSON_KEY_TOK \<Rightarrow> Some JSON_KEY
      | JSON_TRUE_TOK \<Rightarrow> Some JSON_TRUE
      | JSON_FALSE_TOK \<Rightarrow> Some JSON_FALSE
      | JSON_NULL_TOK \<Rightarrow> Some JSON_NULL
      | JSON_NUMBER_TOK \<Rightarrow> Some JSON_NUMBER
      | JSON_FLOAT_HEX_TOK \<Rightarrow> Some JSON_FLOAT_HEX
      | JSON_DOUBLE_HEX_TOK \<Rightarrow> Some JSON_DOUBLE_HEX
      | INVALID_TOK \<Rightarrow> Some INVALID
      | SYNTACTIC_ERROR_TOK \<Rightarrow> Some SYNTACTIC_ERROR
      | JSON_EOF_TOK \<Rightarrow> Some JSON_EOF
      | _ \<Rightarrow> None)"

definition make_node :: "JsonToken \<Rightarrow> error + JsonNode" where
  "make_node token =
     (case node_type_of (tok_type token) of
        None \<Rightarrow> Inl AssertFailed
      | Some ty \<Rightarrow>
          Inr \<lparr>as_sv_data = tok_data token, as_sv_length = tok_length token, count = 0,
               type = ty, nxt = None\<rparr>)"

definition IsValid :: "JsonParser \<Rightarrow> bool" where
  "IsValid st = (m_errorCode st = VALID_JSON)"

definition isPrimitiveValueToken :: "JsonToken \<Rightarrow> bool" where
  "isPrimitiveValueToken t =
     (tok_type t = JSON_TRUE_TOK \<or> tok_type t = JSON_FALSE_TOK \<or> tok_type t = JSON_NULL_TOK
      \<or> tok_type t = JSON_NUMBER_TOK \<or> tok_type t = JSON_STRING_TOK
      \<or> tok_type t = JSON_FLOAT_HEX_TOK \<or> tok_type t = JSON_DOUBLE_HEX_TOK)"

definition pushNode :: "JsonParser \<Rightarrow> error + bool \<times> JsonParser" where
  "pushNode st =
     (if length (m_nodes st) < m_tokenCapacity st then
        (case make_node (m_currentToken st) of
           Inl e \<Rightarrow> Inl e
         | Inr n \<Rightarrow> Inr (True, st\<lparr>m_nodes := m_nodes st @ [n]\<rparr>))
      else
        (case appendToErrorLog (''Exceeded node buffer capacity'' @ [CHR 0x0A])
                (st\<lparr>m_errorCode := CAPACITY_EXCEEDED\<rparr>) of
           Inl e \<Rightarrow> Inl e
         | Inr st' \<Rightarrow> Inr (False, st')))"

definition expect :: "bool \<Rightarrow> string \<Rightarrow> JsonParser \<Rightarrow> error + bool \<times> JsonParser" where
  \<comment> \<open>the result of the \<^verbatim>\<open>pushNode()\<close> of the failing case is not looked at\<close>
  "expect expected message st =
     (if \<not> expected then
        (case (if tok_type (m_currentToken st) \<noteq> INVALID_TOK
               then appendToErrorLog
                      (''Syntactic error at line '' @ line_text st @ '': '' @ message @ [CHR 0x0A])
                      (st\<lparr>m_currentToken := (m_currentToken st)\<lparr>tok_type := SYNTACTIC_ERROR_TOK\<rparr>,
                          m_errorCode := SYNTACTIC_ERRORS\<rparr>)
               else Inr (st\<lparr>m_errorCode := INVALID_TOKENS\<rparr>)) of
           Inl e \<Rightarrow> Inl e
         | Inr st' \<Rightarrow>
             (case pushNode st' of
                Inl e \<Rightarrow> Inl e
              | Inr (pushed, st'') \<Rightarrow> Inr (expected, st'')))
      else Inr (expected, st))"

definition getLastNode :: "JsonParser \<Rightarrow> nat option" where
  \<comment> \<open>\<^verbatim>\<open>&m_nodeBuffer[m_nodeCount - 1]\<close>; with \<^verbatim>\<open>m_nodeCount\<close> 0 this is no slot of the
     buffer (\<open>None\<close>)\<close>
  "getLastNode st = (if m_nodes st = [] then None else Some (length (m_nodes st) - 1))"

definition skipWhitespace_lines :: "string \<Rightarrow> JsonParser \<Rightarrow> JsonParser" where
  \<comment> \<open>\<^verbatim>\<open>skipWhitespace()\<close> on the parser: \<^verbatim>\<open>m_currentLine\<close> (a \<^verbatim>\<open>size_t\<close> of 64 bits)
     counts the line feeds that are skipped\<close>
  "skipWhitespace_lines s st =
     (let p = skipWhitespace s (m_pos st) in
      st\<lparr>m_pos := p,
         m_currentLine := m_currentLine st + of_nat (newlines s (m_pos st) p)\<rparr>)"

definition logInvalidTokenError :: "string \<Rightarrow> JsonTokenType \<Rightarrow> JsonParser \<Rightarrow> error + JsonParser" where
  \<comment> \<open>the log entry of \<^verbatim>\<open>getNextToken\<close> for an invalid token that begins at
     \<^verbatim>\<open>m_pos\<close>: \<^verbatim>\<open>logInvalidTokenError\<close> with the message of the branch, or the entry of
     the last branch\<close>
  "logInvalidTokenError s actual_type st =
     (if actual_type = INVALID_TOK then
        appendToErrorLog
          (case invalid_token_message s (m_pos st) of
             Some message \<Rightarrow>
               ''Invalid token at line '' @ line_text st @ '': '' @ message @ [CHR 0x0A]
           | None \<Rightarrow> ''Invalid token at line '' @ line_text st @ [CHR 0x0A]) st
      else Inr st)"

definition getNextToken :: "string \<Rightarrow> JsonParser \<Rightarrow> error + JsonToken \<times> JsonParser" where
  \<comment> \<open>the token and the parser with the new \<^verbatim>\<open>m_pos\<close>, line counter and log\<close>
  "getNextToken s st =
     (let start = m_pos st in
      if start \<ge> length s
      then Inr (\<lparr>tok_data = start, tok_length = 0, tok_type = JSON_EOF_TOK\<rparr>, st)
      else
        case scan_token s start of
          Inl e \<Rightarrow> Inl e
        | Inr (ty, p1) \<Rightarrow>
            (case logInvalidTokenError s ty st of
               Inl e \<Rightarrow> Inl e
             | Inr st' \<Rightarrow>
                 (case (if ty = INVALID_TOK then skip_invalid s p1 else Inr p1) of
                    Inl e \<Rightarrow> Inl e
                  | Inr p2 \<Rightarrow>
                      Inr (\<lparr>tok_data = start, tok_length = p2 - start, tok_type = ty\<rparr>,
                           skipWhitespace_lines s (st'\<lparr>m_pos := p2\<rparr>)))))"

definition advance :: "string \<Rightarrow> JsonParser \<Rightarrow> error + JsonParser" where
  \<comment> \<open>\<^verbatim>\<open>m_currentToken = getNextToken();\<close>\<close>
  "advance s st =
     (case getNextToken s st of
        Inl e \<Rightarrow> Inl e
      | Inr (token, st') \<Rightarrow> Inr (st'\<lparr>m_currentToken := token\<rparr>))"

definition increment_count :: "nat option \<Rightarrow> JsonParser \<Rightarrow> error + JsonParser" where
  \<comment> \<open>\<^verbatim>\<open>++complex_node->count;\<close>\<close>
  "increment_count complex_node st =
     (case complex_node of
        None \<Rightarrow> Inl OutOfBounds
      | Some c \<Rightarrow>
          if c < length (m_nodes st)
          then Inr (st\<lparr>m_nodes := (m_nodes st)[c := (m_nodes st ! c)\<lparr>count := count (m_nodes st ! c) + 1\<rparr>]\<rparr>)
          else Inl OutOfBounds)"

definition link_previous :: "nat option \<Rightarrow> nat option \<Rightarrow> JsonParser \<Rightarrow> error + JsonParser" where
  \<comment> \<open>\<^verbatim>\<open>if (previous_ptr != nullptr) previous_ptr->next = last_node_ptr;\<close>\<close>
  "link_previous previous_ptr last_node_ptr st =
     (case previous_ptr of
        None \<Rightarrow> Inr st
      | Some p \<Rightarrow>
          if p < length (m_nodes st)
          then Inr (st\<lparr>m_nodes := (m_nodes st)[p := (m_nodes st ! p)\<lparr>nxt := last_node_ptr\<rparr>]\<rparr>)
          else Inl OutOfBounds)"

definition step ::
  "error + bool \<times> JsonParser \<Rightarrow> (JsonParser \<Rightarrow> error + bool \<times> JsonParser)
   \<Rightarrow> error + bool \<times> JsonParser" where
  \<comment> \<open>\<^verbatim>\<open>result = ...; if (!result) break;\<close> followed by the rest of the loop body\<close>
  "step m k =
     (case m of
        Inl e \<Rightarrow> Inl e
      | Inr (result, st) \<Rightarrow> if result then k st else Inr (False, st))"

definition run ::
  "error + JsonParser \<Rightarrow> (JsonParser \<Rightarrow> error + bool \<times> JsonParser)
   \<Rightarrow> error + bool \<times> JsonParser" where
  \<comment> \<open>a statement without a result flag, followed by the rest\<close>
  "run m k = (case m of Inl e \<Rightarrow> Inl e | Inr st \<Rightarrow> k st)"

text \<open>
  \<^verbatim>\<open>parseArray\<close> and \<^verbatim>\<open>parseObject\<close> with their \<^verbatim>\<open>while\<close> loops. The first argument
  bounds the depth of the recursion of the model: every call and every iteration
  takes one unit, and \<open>OutOfFuel\<close> is returned when none is left. The loops are entered
  with \<^verbatim>\<open>result\<close> true, so the loop condition is \<^verbatim>\<open>m_pos < m_end\<close>.
\<close>

fun parseArray :: "nat \<Rightarrow> string \<Rightarrow> JsonParser \<Rightarrow> error + bool \<times> JsonParser"
  and arrayLoop ::
    "nat \<Rightarrow> string \<Rightarrow> nat option \<Rightarrow> nat option \<Rightarrow> JsonParser \<Rightarrow> error + bool \<times> JsonParser"
  and parseObject :: "nat \<Rightarrow> string \<Rightarrow> JsonParser \<Rightarrow> error + bool \<times> JsonParser"
  and objectLoop ::
    "nat \<Rightarrow> string \<Rightarrow> nat option \<Rightarrow> nat option \<Rightarrow> nat option \<Rightarrow> JsonParser
     \<Rightarrow> error + bool \<times> JsonParser"
where
  "parseArray 0 s st = Inl OutOfFuel"
| "parseArray (Suc fuel) s st =
     run (advance s st) (\<lambda>st.
     if tok_type (m_currentToken st) = JSON_ARRAY_END then Inr (True, st)
     else arrayLoop fuel s (getLastNode st) None st)"
| "arrayLoop 0 s complex_node previous_value_ptr st = Inl OutOfFuel"
| "arrayLoop (Suc fuel) s complex_node previous_value_ptr st =
     (if \<not> m_pos st < length s then Inr (True, st)
      else
        let is_first_node = (previous_value_ptr = None);
            is_primitive = isPrimitiveValueToken (m_currentToken st);
            is_array = (tok_type (m_currentToken st) = JSON_ARRAY_BEGIN);
            is_object = (tok_type (m_currentToken st) = JSON_OBJECT_BEGIN)
        in
        step (expect (is_primitive \<or> is_array \<or> is_object)
                (if is_first_node then ''value or array end expected'' else ''value expected'') st)
          (\<lambda>st.
        step (pushNode st) (\<lambda>st.
        run (increment_count complex_node st) (\<lambda>st.
        let last_node_ptr = getLastNode st in
        run (link_previous previous_value_ptr last_node_ptr st) (\<lambda>st.
        step (if is_array then parseArray fuel s st
              else if is_object then parseObject fuel s st
              else Inr (True, st)) (\<lambda>st.
        run (advance s st) (\<lambda>st.
        if tok_type (m_currentToken st) = JSON_ARRAY_END then Inr (True, st)
        else
        step (expect (tok_type (m_currentToken st) = JSON_COMMA) ''comma or array end expected'' st)
          (\<lambda>st.
        run (advance s st) (\<lambda>st.
        arrayLoop fuel s complex_node last_node_ptr st)))))))))"
| "parseObject 0 s st = Inl OutOfFuel"
| "parseObject (Suc fuel) s st =
     run (advance s st) (\<lambda>st.
     if tok_type (m_currentToken st) = JSON_OBJECT_END then Inr (True, st)
     else objectLoop fuel s (getLastNode st) None None st)"
| "objectLoop 0 s complex_node previous_key_ptr previous_value_ptr st = Inl OutOfFuel"
| "objectLoop (Suc fuel) s complex_node previous_key_ptr previous_value_ptr st =
     (if \<not> m_pos st < length s then Inr (True, st)
      else
        let is_first_node = (previous_value_ptr = None) in
        step (expect (tok_type (m_currentToken st) = JSON_STRING_TOK)
                (if is_first_node then ''string (key) or object end expected''
                 else ''string (key) expected'') st)
          (\<lambda>st.
        step (pushNode (st\<lparr>m_currentToken := (m_currentToken st)\<lparr>tok_type := JSON_KEY_TOK\<rparr>\<rparr>)) (\<lambda>st.
        let key_ptr = getLastNode st in
        run (link_previous previous_key_ptr key_ptr st) (\<lambda>st.
        run (advance s st) (\<lambda>st.
        step (expect (tok_type (m_currentToken st) = JSON_COLON) ''colon expected'' st) (\<lambda>st.
        run (advance s st) (\<lambda>st.
        let is_primitive = isPrimitiveValueToken (m_currentToken st);
            is_array = (tok_type (m_currentToken st) = JSON_ARRAY_BEGIN);
            is_object = (tok_type (m_currentToken st) = JSON_OBJECT_BEGIN)
        in
        step (expect (is_primitive \<or> is_array \<or> is_object) ''value expected'' st) (\<lambda>st.
        step (pushNode st) (\<lambda>st.
        run (increment_count complex_node st) (\<lambda>st.
        let value_ptr = getLastNode st in
        run (link_previous previous_value_ptr value_ptr st) (\<lambda>st.
        step (if is_array then parseArray fuel s st
              else if is_object then parseObject fuel s st
              else Inr (True, st)) (\<lambda>st.
        run (advance s st) (\<lambda>st.
        if tok_type (m_currentToken st) = JSON_OBJECT_END then Inr (True, st)
        else
        step (expect (tok_type (m_currentToken st) = JSON_COMMA) ''comma or object end expected'' st)
          (\<lambda>st.
        run (advance s st) (\<lambda>st.
        objectLoop fuel s complex_node key_ptr value_ptr st)))))))))))))))"

fun Parse_loop :: "nat \<Rightarrow> string \<Rightarrow> JsonParser \<Rightarrow> error + bool \<times> JsonParser" where
  \<comment> \<open>\<^verbatim>\<open>while (loop_result && m_pos < m_end)\<close> of \<^verbatim>\<open>Parse\<close>; the result of the
     \<^verbatim>\<open>pushNode()\<close> of the container is not looked at\<close>
  "Parse_loop 0 s st = Inl OutOfFuel"
| "Parse_loop (Suc fuel) s st =
     (if \<not> m_pos st < length s then Inr (True, st)
      else
        run (advance s st) (\<lambda>st.
        let isArray = (tok_type (m_currentToken st) = JSON_ARRAY_BEGIN);
            isObject = (tok_type (m_currentToken st) = JSON_OBJECT_BEGIN)
        in
        step (expect (isArray \<or> isObject) ''Array or object expected'' st) (\<lambda>st.
        case pushNode st of
          Inl e \<Rightarrow> Inl e
        | Inr (pushed, st) \<Rightarrow>
            step (if isArray then parseArray fuel s st else parseObject fuel s st) (\<lambda>st.
            Parse_loop fuel s st))))"

function before_scan :: "string \<Rightarrow> nat \<Rightarrow> nat \<Rightarrow> error + nat" where
  \<comment> \<open>\<^verbatim>\<open>while (newline_count < 3 && before_begin != m_begin)
       newline_count += (*before_begin-- == '\n') ? 1 : 0;\<close>\<close>
  "before_scan s newline_count before_begin =
     (if newline_count < 3 \<and> before_begin \<noteq> 0 then
        (if before_begin < length s
         then before_scan s (newline_count + (if s ! before_begin = CHR 0x0A then 1 else 0))
                (before_begin - 1)
         else Inl OutOfBounds)
      else Inr before_begin)"
  by pat_completeness auto

termination
  by (relation "measure (\<lambda>(s, newline_count, before_begin). before_begin)") auto

declare before_scan.simps [simp del]

function after_scan :: "string \<Rightarrow> nat \<Rightarrow> nat \<Rightarrow> error + nat" where
  \<comment> \<open>\<^verbatim>\<open>while (newline_count < 3 && after_end != m_end)
       newline_count += (*after_end++ == '\n') ? 1 : 0;\<close>\<close>
  "after_scan s newline_count after_end =
     (if newline_count < 3 \<and> after_end \<noteq> length s then
        (if after_end < length s
         then after_scan s (newline_count + (if s ! after_end = CHR 0x0A then 1 else 0))
                (after_end + 1)
         else Inl OutOfBounds)
      else Inr after_end)"
  by pat_completeness auto

termination
  by (relation "measure (\<lambda>(s, newline_count, after_end). length s - after_end)") auto

declare after_scan.simps [simp del]

definition precision :: "int \<Rightarrow> int" where
  \<comment> \<open>a length cast to \<^verbatim>\<open>u32\<close> and read by \<^verbatim>\<open>%.*s\<close> as an \<^verbatim>\<open>int\<close>\<close>
  "precision n = sint (word_of_int n :: 32 word)"

definition print_bytes :: "string \<Rightarrow> nat \<Rightarrow> int \<Rightarrow> error + string" where
  \<comment> \<open>the conversion \<^verbatim>\<open>%.*s\<close> at offset \<open>q\<close>: at most \<open>n\<close> bytes, up to a NUL; a
     negative precision counts as none, and the bytes are read until a NUL is found\<close>
  "print_bytes s q n =
     (if n < 0 then
        (if CHR 0x00 \<in> set (drop q s)
         then Inr (takeWhile (\<lambda>ch. ch \<noteq> CHR 0x00) (drop q s))
         else Inl OutOfBounds)
      else
        let bytes = take (nat n) (drop q s) in
        if CHR 0x00 \<in> set bytes then Inr (takeWhile (\<lambda>ch. ch \<noteq> CHR 0x00) bytes)
        else if q + nat n \<le> length s then Inr bytes
        else Inl OutOfBounds)"

definition logInvalidTokenPosition :: "string \<Rightarrow> JsonParser \<Rightarrow> error + JsonParser" where
  \<comment> \<open>the excerpt around the current token: \<^verbatim>\<open>++before_begin\<close> and \<^verbatim>\<open>--after_end\<close>
     follow the two loops, so a token at \<^verbatim>\<open>m_begin\<close> and a token that ends at \<^verbatim>\<open>m_end\<close>
     give the length \<open>- 1\<close>\<close>
  "logInvalidTokenPosition s st =
     (let token_begin = tok_data (m_currentToken st);
          token_end = token_begin + tok_length (m_currentToken st)
      in
      case before_scan s 0 token_begin of
        Inl e \<Rightarrow> Inl e
      | Inr b \<Rightarrow>
      case after_scan s 0 token_end of
        Inl e \<Rightarrow> Inl e
      | Inr a \<Rightarrow>
      let before_begin = b + 1;
          after_end = int a - 1
      in
      case print_bytes s before_begin (precision (int token_begin - int before_begin)) of
        Inl e \<Rightarrow> Inl e
      | Inr before_text \<Rightarrow>
      case print_bytes s token_begin (precision (int (tok_length (m_currentToken st)))) of
        Inl e \<Rightarrow> Inl e
      | Inr token_text \<Rightarrow>
      case print_bytes s token_end (precision (after_end - int token_end)) of
        Inl e \<Rightarrow> Inl e
      | Inr after_text \<Rightarrow>
          appendToErrorLog
            (''...'' @ [CHR 0x0A] @ before_text @ '' >>> '' @ token_text @ '' <<< ''
             @ after_text
             @ [CHR 0x0A] @ ''...'' @ [CHR 0x0A]) st)"

definition parse_fuel :: "string \<Rightarrow> nat" where
  \<comment> \<open>a bound on the calls and iterations a parse of \<open>s\<close> can make\<close>
  "parse_fuel s = 2 * length s + 3"

definition SetUp :: "nat \<Rightarrow> JsonParser" where
  \<comment> \<open>\<^verbatim>\<open>SetUp(data_, length_, buffer, capacity)\<close>; \<^verbatim>\<open>m_currentToken\<close> is not set by the
     code and is written before it is read\<close>
  "SetUp capacity =
     \<lparr>m_pos = 0, m_errorCode = NOT_DONE, m_nodes = [], m_tokenCapacity = capacity,
      m_currentToken = \<lparr>tok_data = 0, tok_length = 0, tok_type = INVALID_TOK\<rparr>,
      m_currentLine = 1, m_errorLog = []\<rparr>"

definition Parse :: "string \<Rightarrow> nat option \<Rightarrow> JsonParser \<Rightarrow> error + JsonParser" where
  \<comment> \<open>\<^verbatim>\<open>Parse(new_buffer, new_capacity)\<close>: \<open>Some new_capacity\<close> when a new buffer is
     passed, \<open>None\<close> for \<^verbatim>\<open>Parse()\<close>\<close>
  "Parse s new_buffer st0 =
     (let st = (case new_buffer of
                  Some new_capacity \<Rightarrow>
                    st0\<lparr>m_pos := 0, m_errorCode := NOT_DONE, m_nodes := [],
                        m_tokenCapacity := new_capacity, m_currentLine := 1, m_errorLog := []\<rparr>
                | None \<Rightarrow> st0)
      in
      if IsValid st then Inr st
      else
        case Parse_loop (parse_fuel s) s (skipWhitespace_lines s st) of
          Inl e \<Rightarrow> Inl e
        | Inr (loop_result, st) \<Rightarrow>
            (case (if loop_result then run (advance s st) pushNode else Inr (False, st)) of
               Inl e \<Rightarrow> Inl e
             | Inr (loop_result, st) \<Rightarrow>
                 if loop_result then Inr (st\<lparr>m_errorCode := VALID_JSON\<rparr>)
                 else logInvalidTokenPosition s st))"

section \<open>The flattened document\<close>

text \<open>
  The shape of a node buffer in the words of the specification. \<open>value_at ns i j\<close>: the
  value whose node is \<open>ns ! i\<close> occupies the slots \<open>i\<close> up to \<open>j\<close> (exclusive). A scalar and
  an empty container occupy one slot. A container with children is followed at once by
  its first child; its \<^verbatim>\<open>count\<close> is the number of its children. \<open>elems ns ps j\<close>: the
  array elements \<open>ps\<close> lie one after the other up to \<open>j\<close>, each one's \<^verbatim>\<open>next\<close> is the node
  behind its own subtree, which is the following element, and the last one has none.
  \<open>props ns ks j\<close>: the same for the keys \<open>ks\<close> of an object, where the value of a key is
  the node behind the key and the values are chained like the keys.
\<close>

definition scalar_type :: "JsonNodeType \<Rightarrow> bool" where
  "scalar_type t =
     (t = JSON_TRUE \<or> t = JSON_FALSE \<or> t = JSON_NULL \<or> t = JSON_NUMBER \<or> t = JSON_FLOAT_HEX
      \<or> t = JSON_DOUBLE_HEX \<or> t = JSON_STRING)"

inductive value_at :: "JsonNode list \<Rightarrow> nat \<Rightarrow> nat \<Rightarrow> bool"
  and elems :: "JsonNode list \<Rightarrow> nat list \<Rightarrow> nat \<Rightarrow> bool"
  and props :: "JsonNode list \<Rightarrow> nat list \<Rightarrow> nat \<Rightarrow> bool"
  for ns :: "JsonNode list"
where
  scalar: "i < length ns \<Longrightarrow> scalar_type (type (ns ! i)) \<Longrightarrow> value_at ns i (Suc i)"
| empty: "i < length ns \<Longrightarrow> IsComplex (ns ! i) \<Longrightarrow> count (ns ! i) = 0 \<Longrightarrow> value_at ns i (Suc i)"
| array: "i < length ns \<Longrightarrow> IsArray (ns ! i) \<Longrightarrow> elems ns (Suc i # ps) j \<Longrightarrow>
          count (ns ! i) = Suc (length ps) \<Longrightarrow> value_at ns i j"
| object: "i < length ns \<Longrightarrow> IsObject (ns ! i) \<Longrightarrow> props ns (Suc i # ks) j \<Longrightarrow>
          count (ns ! i) = Suc (length ks) \<Longrightarrow> value_at ns i j"
| elems_last: "value_at ns p j \<Longrightarrow> nxt (ns ! p) = None \<Longrightarrow> elems ns [p] j"
| elems_cons: "value_at ns p q \<Longrightarrow> nxt (ns ! p) = Some q \<Longrightarrow> elems ns (q # ps) j \<Longrightarrow>
          elems ns (p # q # ps) j"
| props_last: "k < length ns \<Longrightarrow> IsKey (ns ! k) \<Longrightarrow> nxt (ns ! k) = None \<Longrightarrow>
          value_at ns (Suc k) j \<Longrightarrow> nxt (ns ! Suc k) = None \<Longrightarrow> props ns [k] j"
| props_cons: "k < length ns \<Longrightarrow> IsKey (ns ! k) \<Longrightarrow> nxt (ns ! k) = Some q \<Longrightarrow>
          value_at ns (Suc k) q \<Longrightarrow> nxt (ns ! Suc k) = Some (Suc q) \<Longrightarrow>
          props ns (q # ks) j \<Longrightarrow> props ns (k # q # ks) j"

text \<open>
  \<open>top_level ns j\<close>: the slots before \<open>j\<close> hold a sequence of containers with their
  subtrees. A buffer is \<open>flattened\<close> when it is such a sequence followed by the
  end-of-input node.
\<close>

inductive top_level :: "JsonNode list \<Rightarrow> nat \<Rightarrow> bool" for ns where
  start: "top_level ns 0"
| root: "top_level ns i \<Longrightarrow> IsComplex (ns ! i) \<Longrightarrow> value_at ns i j \<Longrightarrow> top_level ns j"

definition flattened :: "JsonNode list \<Rightarrow> bool" where
  "flattened ns = (\<exists>j. top_level ns j \<and> length ns = Suc j \<and> IsEOF (ns ! j))"

section \<open>Node model: which nodes are values\<close>

text \<open>
  C10. \<^verbatim>\<open>IsValue\<close> holds exactly for the nodes whose type is not key, invalid or
  syntactic-error; so it holds for array, object and end-of-input nodes, and
  \<^verbatim>\<open>GetValue\<close> on an end-of-input node or on a container node returns that node itself
  (its own index), not none.
\<close>

theorem C10_IsValue_GetValue:
  "(IsValue n \<longleftrightarrow> type n \<notin> {JSON_KEY, INVALID, SYNTACTIC_ERROR})
   \<and> (type n \<in> {JSON_ARRAY, JSON_OBJECT, JSON_EOF} \<longrightarrow> IsValue n \<and> GetValue n i = Some i)"
  by (auto simp: IsValue_def IsKey_def IsInvalid_def GetValue_def)

theorem C10_IsValue_GetValue_witness:
  "IsValue \<lparr>as_sv_data = 4, as_sv_length = 0, count = 0, type = JSON_EOF, nxt = None\<rparr>
   \<and> GetValue \<lparr>as_sv_data = 4, as_sv_length = 0, count = 0, type = JSON_EOF, nxt = None\<rparr> 3 = Some 3
   \<and> GetValue \<lparr>as_sv_data = 0, as_sv_length = 1, count = 2, type = JSON_ARRAY, nxt = None\<rparr> 0 = Some 0"
  using C10_IsValue_GetValue
    [of "\<lparr>as_sv_data = 4, as_sv_length = 0, count = 0, type = JSON_EOF, nxt = None\<rparr>" 3]
    C10_IsValue_GetValue
    [of "\<lparr>as_sv_data = 0, as_sv_length = 1, count = 2, type = JSON_ARRAY, nxt = None\<rparr>" 0]
  by simp

section \<open>Bounded decimal integer parsing: overflow\<close>

text \<open>
  \<open>dec ds\<close> is the number a run of decimal digits denotes; \<open>run_ends rest\<close> says that
  the run stops where \<open>rest\<close> begins (the range ends there or a non-digit follows).
\<close>

fun dec :: "string \<Rightarrow> nat" where
  "dec [] = 0"
| "dec (c # cs) = digit_value c * 10 ^ length cs + dec cs"

definition digits :: "string \<Rightarrow> bool" where
  "digits ds = (\<forall>c \<in> set ds. isDigit c)"

definition run_ends :: "string \<Rightarrow> bool" where
  "run_ends rest = (case rest of [] \<Rightarrow> True | c # _ \<Rightarrow> \<not> isDigit c)"

lemma isDigit_val: "isDigit c \<Longrightarrow> digit_value c \<le> 9"
  unfolding isDigit_def less_eq_char_def digit_value_def by simp arith

lemma dec_less: "digits ds \<Longrightarrow> dec ds < 10 ^ length ds"
proof (induction ds)
  case Nil
  then show ?case by simp
next
  case (Cons c cs)
  then have d: "digit_value c \<le> 9" and ih: "dec cs < 10 ^ length cs"
    by (auto simp: digits_def isDigit_val)
  have "digit_value c * 10 ^ length cs \<le> 9 * 10 ^ length cs"
    using d by (rule mult_le_mono1)
  with ih have "digit_value c * 10 ^ length cs + dec cs < 9 * 10 ^ length cs + 10 ^ length cs"
    by linarith
  then show ?case by simp
qed

lemma digit_run_append:
  "digits ds \<Longrightarrow> run_ends rest \<Longrightarrow>
   digit_run (ds @ rest) n k = (k + length ds, n * 10 ^ length ds + of_nat (dec ds))"
proof (induction ds arbitrary: n k)
  case Nil
  then show ?case by (cases rest) (auto simp: run_ends_def isDigit_def)
next
  case (Cons c cs)
  then have c: "CHR ''0'' \<le> c \<and> c \<le> CHR ''9''" and cs: "digits cs"
    by (auto simp: digits_def isDigit_def)
  show ?case
    using c Cons.IH [OF cs Cons.prems(2)] by (simp add: algebra_simps)
qed


lemma memcmp_dec:
  "length a = length b \<Longrightarrow> digits a \<Longrightarrow> digits b \<Longrightarrow> (memcmp a b > 0) = (dec a > dec b)"
proof (induction a b rule: list_induct2)
  case Nil
  then show ?case by simp
next
  case (Cons x xs y ys)
  then have dx: "isDigit x" and dy: "isDigit y" and dxs: "digits xs" and dys: "digits ys"
    by (auto simp: digits_def)
  have lx: "dec xs < 10 ^ length xs" and ly: "dec ys < 10 ^ length xs"
    using dec_less [OF dxs] dec_less [OF dys] Cons.hyps by auto
  define u where "u = digit_value x"
  define v where "v = digit_value y"
  define m where "m = (10::nat) ^ length xs"
  have xy: "(x = y) = (u = v)" "(x < y) = (u < v)"
    using dx dy unfolding isDigit_def less_eq_char_def less_char_def u_def v_def digit_value_def
    by (auto simp: of_char_eq_iff [where ?'a = nat, symmetric] simp del: of_char_eq_iff)
  show ?case
  proof (cases "u = v")
    case True
    then show ?thesis using Cons xy dxs dys by (simp add: u_def v_def)
  next
    case False
    show ?thesis
    proof (cases "u < v")
      case True
      then have "(u + 1) * m \<le> v * m" by (intro mult_le_mono1) simp
      then have "u * m + dec xs < v * m + dec ys" using lx by (simp add: m_def)
      then show ?thesis using True xy False Cons.hyps by (simp add: u_def v_def m_def)
    next
      case False2: False
      then have "v < u" using False by simp
      then have "(v + 1) * m \<le> u * m" by (intro mult_le_mono1) simp
      then have "v * m + dec ys < u * m + dec xs" using ly by (simp add: m_def)
      then show ?thesis using False2 xy False Cons.hyps by (simp add: u_def v_def m_def)
    qed
  qed
qed

lemma to_u64_overflow:
  assumes "digits ds" "run_ends rest" "dec ds \<ge> 2 ^ 64"
  shows "fst (to_u64 (ds @ rest)) = 0"
proof -
  have run: "digit_run (ds @ rest) 0 0 = (length ds, of_nat (dec ds))"
    using digit_run_append [OF assms(1,2), of 0 0] by simp
  have len: "length ds \<ge> 20"
  proof (rule ccontr)
    assume "\<not> 20 \<le> length ds"
    then have "length ds \<le> 19" by simp
    then have "(10::nat) ^ length ds \<le> 10 ^ 19" by (intro power_increasing) auto
    with dec_less [OF assms(1)] assms(3) show False by simp
  qed
  show ?thesis
  proof (cases "length ds = 20")
    case True
    have "dec ds > dec ''18446744073709551615''" using assms(3) by (simp add: digit_value_def)
    moreover have "digits ''18446744073709551615''" by (simp add: digits_def isDigit_def)
    ultimately have "memcmp ds ''18446744073709551615'' > 0"
      using memcmp_dec [of ds "''18446744073709551615''"] True assms(1) by simp
    then show ?thesis using True run by (simp add: to_u64_def)
  next
    case False
    then show ?thesis using len run by (simp add: to_u64_def)
  qed
qed


lemma to_u64_in_range:
  assumes "digits ds" "run_ends rest" "length ds \<le> 20" "dec ds < 2 ^ 64"
  shows "to_u64 (ds @ rest) = (length ds, of_nat (dec ds))"
proof -
  have run: "digit_run (ds @ rest) 0 0 = (length ds, of_nat (dec ds))"
    using digit_run_append [OF assms(1,2), of 0 0] by simp
  show ?thesis
  proof (cases "length ds = 20")
    case True
    have "\<not> dec ds > dec ''18446744073709551615''" using assms(4) by (simp add: digit_value_def)
    moreover have "digits ''18446744073709551615''" by (simp add: digits_def isDigit_def)
    ultimately have "\<not> memcmp ds ''18446744073709551615'' > 0"
      using memcmp_dec [of ds "''18446744073709551615''"] True assms(1) by simp
    then show ?thesis using True run by (simp add: to_u64_def)
  next
    case False
    then show ?thesis using assms(3) run by (simp add: to_u64_def)
  qed
qed

lemma digits_not_minus: "digits (c # cs) \<Longrightarrow> c \<noteq> CHR ''-''"
  by (auto simp: digits_def isDigit_def)

lemma to_s64_overflow_pos:
  assumes "digits ds" "run_ends rest" "dec ds \<ge> 2 ^ 63"
  shows "\<exists>n. to_s64 (ds @ rest) = Inr (0, n)"
proof -
  have run: "digit_run (ds @ rest) 0 0 = (length ds, of_nat (dec ds))"
    using digit_run_append [OF assms(1,2), of 0 0] by simp
  have len: "length ds \<ge> 19"
  proof (rule ccontr)
    assume "\<not> 19 \<le> length ds"
    then have "length ds \<le> 18" by simp
    then have "(10::nat) ^ length ds \<le> 10 ^ 18" by (intro power_increasing) auto
    with dec_less [OF assms(1)] assms(3) show False by simp
  qed
  then obtain c cs where ds: "ds = c # cs" by (cases ds) auto
  have nm: "c \<noteq> CHR ''-''" using assms(1) ds digits_not_minus by blast
  show ?thesis
  proof (cases "length ds = 19")
    case True
    have "dec ds > dec ''9223372036854775807''" using assms(3) by (simp add: digit_value_def)
    moreover have "digits ''9223372036854775807''" by (simp add: digits_def isDigit_def)
    ultimately have "memcmp ds ''9223372036854775807'' > 0"
      using memcmp_dec [of ds "''9223372036854775807''"] True assms(1) by simp
    then show ?thesis using True run nm ds by (simp add: to_s64_def)
  next
    case False
    then show ?thesis using len run nm ds by (simp add: to_s64_def)
  qed
qed

lemma to_s64_overflow_neg:
  assumes "digits ds" "run_ends rest" "dec ds > 2 ^ 63"
  shows "\<exists>n. to_s64 (CHR ''-'' # ds @ rest) = Inr (0, n)"
proof -
  have run: "digit_run (ds @ rest) 0 0 = (length ds, of_nat (dec ds))"
    using digit_run_append [OF assms(1,2), of 0 0] by simp
  have len: "length ds \<ge> 19"
  proof (rule ccontr)
    assume "\<not> 19 \<le> length ds"
    then have "length ds \<le> 18" by simp
    then have "(10::nat) ^ length ds \<le> 10 ^ 18" by (intro power_increasing) auto
    with dec_less [OF assms(1)] assms(3) show False by simp
  qed
  show ?thesis
  proof (cases "length ds = 19")
    case True
    have "dec ds > dec ''9223372036854775808''" using assms(3) by (simp add: digit_value_def)
    moreover have "digits ''9223372036854775808''" by (simp add: digits_def isDigit_def)
    ultimately have "memcmp ds ''9223372036854775808'' > 0"
      using memcmp_dec [of ds "''9223372036854775808''"] True assms(1) by simp
    then show ?thesis using True run by (simp add: to_s64_def)
  next
    case False
    then show ?thesis using len run by (simp add: to_s64_def)
  qed
qed

text \<open>
  C7. \<^verbatim>\<open>to_u64\<close> on "18446744073709551615" returns the count 20 and stores
  \<open>2^64 - 1\<close>; on "18446744073709551616" it returns 0. \<^verbatim>\<open>to_s64\<close> on
  "-9223372036854775808" returns 20 and stores \<open>- 2^63\<close>; on "9223372036854775808" it
  returns 0. In general both return 0 for every digit run whose value lies outside the
  target type: unsigned from \<open>2^64\<close> on, signed from \<open>2^63\<close> on without a sign and
  beyond \<open>2^63\<close> after a minus sign. The check is the one of the code: the length of
  the run and, at the extremal length, \<^verbatim>\<open>memcmp\<close> against the decimal text of the bound.
  A run of at most 20 digits below \<open>2^64\<close> is accepted by \<^verbatim>\<open>to_u64\<close> with its value.
\<close>

theorem C7_integer_bounds:
  "to_u64 ''18446744073709551615'' = (20, 18446744073709551615)
   \<and> fst (to_u64 ''18446744073709551616'') = 0
   \<and> (\<exists>n. to_s64 ''-9223372036854775808'' = Inr (20, n) \<and> sint n = - (2 ^ 63))
   \<and> (\<exists>n. to_s64 ''9223372036854775808'' = Inr (0, n))
   \<and> (digits ds \<and> run_ends rest \<and> 2 ^ 64 \<le> dec ds \<longrightarrow> fst (to_u64 (ds @ rest)) = 0)
   \<and> (digits ds \<and> run_ends rest \<and> 2 ^ 63 \<le> dec ds \<longrightarrow>
        (\<exists>n. to_s64 (ds @ rest) = Inr (0, n)))
   \<and> (digits ds \<and> run_ends rest \<and> 2 ^ 63 < dec ds \<longrightarrow>
        (\<exists>n. to_s64 (CHR ''-'' # ds @ rest) = Inr (0, n)))
   \<and> (digits ds \<and> run_ends rest \<and> length ds \<le> 20 \<and> dec ds < 2 ^ 64 \<longrightarrow>
        to_u64 (ds @ rest) = (length ds, of_nat (dec ds)))"
proof -
  have 1: "to_u64 ''18446744073709551615'' = (20, 18446744073709551615)"
    by (simp add: to_u64_def digit_value_def)
  have 2: "fst (to_u64 ''18446744073709551616'') = 0"
    by (simp add: to_u64_def digit_value_def)
  have 3: "\<exists>n. to_s64 ''-9223372036854775808'' = Inr (20, n) \<and> sint n = - (2 ^ 63)"
    by (simp add: to_s64_def digit_value_def)
  have 4: "\<exists>n. to_s64 ''9223372036854775808'' = Inr (0, n)"
    by (simp add: to_s64_def digit_value_def)
  show ?thesis
    using 1 2 3 4 to_u64_overflow to_s64_overflow_pos to_s64_overflow_neg to_u64_in_range
    by blast
qed

theorem C7_integer_bounds_witness:
  "fst (to_u64 ''18446744073709551616]'') = 0
   \<and> (\<exists>n. to_s64 ''9223372036854775808'' = Inr (0, n))
   \<and> (\<exists>n. to_s64 ''-9223372036854775809,'' = Inr (0, n))
   \<and> to_u64 ''42]'' = (2, 42)"
proof -
  have d1: "digits ''18446744073709551616'' \<and> run_ends '']'' \<and> 2 ^ 64 \<le> dec ''18446744073709551616''"
    by (simp add: digits_def isDigit_def run_ends_def digit_value_def)
  have d2: "digits ''9223372036854775808'' \<and> run_ends [] \<and> 2 ^ 63 \<le> dec ''9223372036854775808''"
    by (simp add: digits_def isDigit_def run_ends_def digit_value_def)
  have d3: "digits ''9223372036854775809'' \<and> run_ends '','' \<and> 2 ^ 63 < dec ''9223372036854775809''"
    by (simp add: digits_def isDigit_def run_ends_def digit_value_def)
  have d4: "digits ''42'' \<and> run_ends '']'' \<and> length ''42'' \<le> 20 \<and> dec ''42'' < 2 ^ 64"
    by (simp add: digits_def isDigit_def run_ends_def digit_value_def)
  show ?thesis
    using d1 d2 d3 d4
      C7_integer_bounds [of "''18446744073709551616''" "'']''"]
      C7_integer_bounds [of "''9223372036854775808''" "[]"]
      C7_integer_bounds [of "''9223372036854775809''" "'',''"]
      C7_integer_bounds [of "''42''" "'']''"]
    by (simp add: digit_value_def)
qed

section \<open>Hexadecimal bit patterns: what hex\_to\_double decodes\<close>

text \<open>
  C4. The claim is that \<^verbatim>\<open>hex_to_double\<close> reinterprets the exact 64-bit pattern the
  sixteen hex digits denote. The code accumulates the digits in a \<^verbatim>\<open>u32\<close>, so the
  first eight digits are shifted out: for "0x3ff0000000000000" (the double 1.0) the
  low half of the result is 0 and the high half is whatever lies behind the
  accumulator in memory, and the tokens of 1.0 and 2.0 decode to the same value.
  \<^verbatim>\<open>hex_to_float\<close>, with eight digits, does return the pattern written.
\<close>

lemma hex_accumulate_one: "hex_accumulate 16 ''3ff0000000000000'' 0 = Inr 0"
  by code_simp

lemma hex_accumulate_two: "hex_accumulate 16 ''4000000000000000'' 0 = Inr 0"
  by code_simp

lemma hex_accumulate_pi: "hex_accumulate 8 ''4048f5c3'' 0 = Inr 0x4048f5c3"
  by code_simp

theorem C4_hex_to_double_keeps_low_half:
  "hex_to_double beyond ''0x3ff0000000000000'' = Inr (word_cat beyond (0 :: u32))
   \<and> hex_to_double beyond ''0x3ff0000000000000'' = hex_to_double beyond ''0x4000000000000000''
   \<and> hex_to_double 0 ''0x3ff0000000000000'' = Inr 0
   \<and> hex_to_float ''0x4048f5c3'' = Inr 0x4048f5c3"
  by (simp add: hex_to_double_def hex_to_float_def hex_accumulate_one hex_accumulate_two
      hex_accumulate_pi word_cat_eq)

section \<open>String extraction with a null destination\<close>

text \<open>
  C9. The claim is that \<^verbatim>\<open>GetAsString\<close> with a null destination returns the number of
  bytes the conversion would write. \<^verbatim>\<open>json_string_to_utf8\<close> has that measuring mode,
  but \<^verbatim>\<open>GetAsString\<close> starts with \<^verbatim>\<open>JSON_ASSERT(dest != nullptr)\<close>: on the string node
  of \<^verbatim>\<open>["Test"]\<close> the call with a null destination fails the assertion, while the call
  with a destination writes the four bytes of \<^verbatim>\<open>Test\<close>.
\<close>

theorem C9_GetAsString_null_dest_asserts:
  "GetAsString ''[\"Test\"]''
     \<lparr>as_sv_data = 1, as_sv_length = 6, count = 0, type = JSON_STRING, nxt = None\<rparr> False
     = Inl AssertFailed
   \<and> GetAsString ''[\"Test\"]''
     \<lparr>as_sv_data = 1, as_sv_length = 6, count = 0, type = JSON_STRING, nxt = None\<rparr> True
     = Inr (4, ''Test'')
   \<and> json_string_to_utf8 False ''Test'' = Inr (4, [])"
  by (simp add: GetAsString_def json_string_to_utf8_def)

section \<open>Path resolver: array steps\<close>


lemma gvn_loop_end:
  "\<not> p < length path \<Longrightarrow> get_value_node_loop nodes text path cur p = Some (Inr cur)"
  by (subst get_value_node_loop.simps) simp

lemma gvn_loop_null:
  "p < length path \<Longrightarrow> get_value_node_loop nodes text path None p = Some (Inl NullDeref)"
  by (subst get_value_node_loop.simps) simp













section \<open>Path resolver: key steps\<close>

lemma key_loop_step:
  assumes "p < length path" "cur < length nodes" "\<not> IsEOF (nodes ! cur)" "IsKey (nodes ! cur)"
    "match_key text path p (nodes ! cur) = r"
  shows "key_loop nodes text path cur p =
     (case r of
        Inl e \<Rightarrow> Some (Inl e)
      | Inr (Some k) \<Rightarrow> Some (Inr (Some (cur + 1), p + k))
      | Inr None \<Rightarrow>
          (case GetNext (nodes ! cur) of
             None \<Rightarrow> Some (Inr (None, p))
           | Some nx \<Rightarrow> key_loop nodes text path nx p))"
  using assms by (subst key_loop.simps) simp

lemma gvn_loop_object:
  assumes "p < length path" "cur < length nodes" "\<not> IsEOF (nodes ! cur)"
    "path ! p = CHR ''.''" "IsObject (nodes ! cur)" "count (nodes ! cur) \<noteq> 0"
    "key_loop nodes text path (cur + 1) (p + 1) = r"
  shows "get_value_node_loop nodes text path (Some cur) p =
     (case r of
        None \<Rightarrow> None
      | Some (Inl e) \<Rightarrow> Some (Inl e)
      | Some (Inr (nd, p')) \<Rightarrow> get_value_node_loop nodes text path nd p')"
  using assms by (subst get_value_node_loop.simps) simp

lemma doc_one_key_nodes:
  "length doc_one_key = 4"
  "doc_one_key ! 0 = \<lparr>as_sv_data = 0, as_sv_length = 1, count = 1, type = JSON_OBJECT, nxt = None\<rparr>"
  "doc_one_key ! Suc 0 = \<lparr>as_sv_data = 1, as_sv_length = 3, count = 0, type = JSON_KEY, nxt = None\<rparr>"
  by (simp_all add: doc_one_key_def)

lemma doc_prefix_keys_nodes:
  "length doc_prefix_keys = 6"
  "doc_prefix_keys ! 0 = \<lparr>as_sv_data = 0, as_sv_length = 1, count = 2, type = JSON_OBJECT, nxt = None\<rparr>"
  "doc_prefix_keys ! Suc 0 = \<lparr>as_sv_data = 1, as_sv_length = 3, count = 0, type = JSON_KEY, nxt = Some 3\<rparr>"
  "doc_prefix_keys ! 2 = \<lparr>as_sv_data = 5, as_sv_length = 1, count = 0, type = JSON_NUMBER, nxt = Some 4\<rparr>"
  "doc_prefix_keys ! 3 = \<lparr>as_sv_data = 7, as_sv_length = 4, count = 0, type = JSON_KEY, nxt = None\<rparr>"
  by (simp_all add: doc_prefix_keys_def)

lemmas resolver_eval = IsEOF_def IsKey_def IsObject_def IsArray_def match_key_def bytes_at_def
  GetNext_def

text \<open>
  C6. The claim is that a key step returns the value of the first key whose text
  equals the step's key and yields not-found when there is none. On \<^verbatim>\<open>{"a":1}\<close> the
  path \<^verbatim>\<open>.b\<close> runs off the key chain with a null current node, and the outer loop
  then reads \<^verbatim>\<open>current_node->IsEOF()\<close> before it tests for null. On \<^verbatim>\<open>{"a":1,"ab":2}\<close>
  the path \<^verbatim>\<open>.ab\<close> is matched by the key \<^verbatim>\<open>"a"\<close>, a proper prefix of the step's key,
  and the rest \<^verbatim>\<open>b\<close> of the path is then not a step: not-found, although the key
  \<^verbatim>\<open>"ab"\<close> is there. The quoted form \<^verbatim>\<open>."ab"\<close> finds it.
\<close>

theorem C6_missing_key_and_prefix_key:
  "get_value_node doc_one_key ''{\"a\":1}'' 0 ''.b'' = Some (Inl NullDeref)
   \<and> get_value_node doc_prefix_keys ''{\"a\":1,\"ab\":2}'' 0 ''.ab'' = Some (Inr None)
   \<and> get_value_node doc_prefix_keys ''{\"a\":1,\"ab\":2}'' 0 ''.\"ab\"'' = Some (Inr (Some 4))"
proof -
  have k1: "key_loop doc_one_key ''{\"a\":1}'' ''.b'' (0 + 1) (0 + 1) = Some (Inr (None, 1))"
    by (subst key_loop_step [OF _ _ _ _ refl])
       (simp_all add: doc_one_key_nodes resolver_eval)
  have a0: "get_value_node_loop doc_one_key ''{\"a\":1}'' ''.b'' (Some 0) 0 = Some (Inl NullDeref)"
    by (subst gvn_loop_object [OF _ _ _ _ _ _ k1])
       (simp_all add: gvn_loop_null doc_one_key_nodes resolver_eval)
  have a: "get_value_node doc_one_key ''{\"a\":1}'' 0 ''.b'' = Some (Inl NullDeref)"
    using a0 by (simp add: get_value_node_def doc_one_key_nodes resolver_eval)
  have k2: "key_loop doc_prefix_keys ''{\"a\":1,\"ab\":2}'' ''.ab'' (0 + 1) (0 + 1)
            = Some (Inr (Some 2, 2))"
    by (subst key_loop_step [OF _ _ _ _ refl])
       (simp_all add: doc_prefix_keys_nodes resolver_eval)
  have l2: "get_value_node_loop doc_prefix_keys ''{\"a\":1,\"ab\":2}'' ''.ab'' (Some 2) 2
            = Some (Inr None)"
    by (subst get_value_node_loop.simps)
       (simp add: doc_prefix_keys_nodes resolver_eval)
  have b0: "get_value_node_loop doc_prefix_keys ''{\"a\":1,\"ab\":2}'' ''.ab'' (Some 0) 0
            = Some (Inr None)"
    by (subst gvn_loop_object [OF _ _ _ _ _ _ k2])
       (simp_all add: l2 doc_prefix_keys_nodes resolver_eval)
  have b: "get_value_node doc_prefix_keys ''{\"a\":1,\"ab\":2}'' 0 ''.ab'' = Some (Inr None)"
    using b0 by (simp add: get_value_node_def doc_prefix_keys_nodes resolver_eval)
  have k3a: "key_loop doc_prefix_keys ''{\"a\":1,\"ab\":2}'' ''.\"ab\"'' 3 (Suc 0)
            = Some (Inr (Some 4, 5))"
    by (subst key_loop_step [OF _ _ _ _ refl])
       (simp_all add: doc_prefix_keys_nodes resolver_eval)
  have k3: "key_loop doc_prefix_keys ''{\"a\":1,\"ab\":2}'' ''.\"ab\"'' (0 + 1) (0 + 1)
            = Some (Inr (Some 4, 5))"
    by (subst key_loop_step [OF _ _ _ _ refl])
       (simp_all add: k3a doc_prefix_keys_nodes resolver_eval)
  have c0: "get_value_node_loop doc_prefix_keys ''{\"a\":1,\"ab\":2}'' ''.\"ab\"'' (Some 0) 0
            = Some (Inr (Some 4))"
    by (subst gvn_loop_object [OF _ _ _ _ _ _ k3])
       (simp_all add: gvn_loop_end doc_prefix_keys_nodes resolver_eval)
  have c: "get_value_node doc_prefix_keys ''{\"a\":1,\"ab\":2}'' 0 ''.\"ab\"'' = Some (Inr (Some 4))"
    using c0 by (simp add: get_value_node_def doc_prefix_keys_nodes resolver_eval)
  from a b c show ?thesis by simp
qed

section \<open>Scanner: strings\<close>

lemma hex_upto_all:
  "k \<le> length (drop q s) \<Longrightarrow> list_all isHexDigit (take k (drop q s)) \<Longrightarrow> hex_upto k s q = q + k"
proof (induction k arbitrary: q)
  case 0
  show ?case by simp
next
  case (Suc k)
  then have q: "q < length s" by simp
  then have d: "drop q s = s ! q # drop (Suc q) s" by (simp add: Cons_nth_drop_Suc)
  with Suc.prems have h: "isHexDigit (s ! q)" "list_all isHexDigit (take k (drop (Suc q) s))"
    "k \<le> length (drop (Suc q) s)" by auto
  from Suc.IH [OF h(3) h(2)] h(1) q show ?case by simp
qed

lemma char_lt_FF: "((of_char c :: nat) < 0xFF) = (c \<noteq> CHR 0xFF)"
proof -
  have a: "(of_char c :: nat) < 256" by simp
  have b: "(c = CHR 0xFF) = ((of_char c :: nat) = 255)"
    using of_char_eq_iff [of c "CHR 0xFF", where ?'a = nat] by simp
  show ?thesis unfolding b using a by linarith
qed

definition scan_agrees :: "string \<Rightarrow> nat \<Rightarrow> nat \<Rightarrow> bool" where
  "scan_agrees s q k =
     ((\<forall>k'. string_spec (drop q s) k = Accepted k' \<longrightarrow>
         (\<exists>d. k' = k + d \<and> string_loop s q = Inr (q + d) \<and> q + d < length s
              \<and> byte_is s (q + d) (CHR 0x22)))
      \<and> (\<forall>k'. string_spec (drop q s) k = Rejected k' \<longrightarrow>
         (\<exists>d. k' = k + d \<and> string_loop s q = Inr (q + d) \<and> q + d \<le> length s
              \<and> \<not> byte_is s (q + d) (CHR 0x22))))"

lemma scan_agrees_shift:
  assumes "scan_agrees s (q + n) (k + n)"
    "string_spec (drop q s) k = string_spec (drop (q + n) s) (k + n)"
    "string_loop s q = string_loop s (q + n)"
  shows "scan_agrees s q k"
  unfolding scan_agrees_def
proof (intro conjI allI impI)
  fix k'
  assume "string_spec (drop q s) k = Accepted k'"
  then have "string_spec (drop (q + n) s) (k + n) = Accepted k'" using assms(2) by simp
  with assms(1) obtain d where "k' = k + n + d" "string_loop s (q + n) = Inr (q + n + d)"
    "q + n + d < length s" "byte_is s (q + n + d) (CHR 0x22)"
    unfolding scan_agrees_def by blast
  then show "\<exists>d. k' = k + d \<and> string_loop s q = Inr (q + d) \<and> q + d < length s
                \<and> byte_is s (q + d) (CHR 0x22)"
    using assms(3) by (intro exI [of _ "n + d"]) (simp add: add.assoc)
next
  fix k'
  assume "string_spec (drop q s) k = Rejected k'"
  then have "string_spec (drop (q + n) s) (k + n) = Rejected k'" using assms(2) by simp
  with assms(1) obtain d where "k' = k + n + d" "string_loop s (q + n) = Inr (q + n + d)"
    "q + n + d \<le> length s" "\<not> byte_is s (q + n + d) (CHR 0x22)"
    unfolding scan_agrees_def by blast
  then show "\<exists>d. k' = k + d \<and> string_loop s q = Inr (q + d) \<and> q + d \<le> length s
                \<and> \<not> byte_is s (q + d) (CHR 0x22)"
    using assms(3) by (intro exI [of _ "n + d"]) (simp add: add.assoc)
qed

lemma string_loop_spec: "q \<le> length s \<Longrightarrow> scan_agrees s q k"
proof (induction "length s - q" arbitrary: q k rule: less_induct)
  case (less q k)
  show ?case
  proof (cases "q < length s")
    case False
    with less.prems have "drop q s = []" by simp
    moreover have "string_loop s q = Inr q" using False by (subst string_loop.simps) simp
    ultimately show ?thesis using False less.prems by (simp add: byte_is_def scan_agrees_def)
  next
    case True
    then have d: "drop q s = s ! q # drop (Suc q) s" by (simp add: Cons_nth_drop_Suc)
    let ?c = "s ! q"
    show ?thesis
    proof (cases "?c = CHR 0x22")
      case c1: True
      have "string_loop s q = Inr q" using c1 by (subst string_loop.simps) simp
      then show ?thesis using c1 d True by (simp add: byte_is_def scan_agrees_def)
    next
      case c1: False
      show ?thesis
      proof (cases "(of_char ?c :: nat) < 0x20 \<or> ?c = CHR ''/''")
        case c2: True
        have "string_loop s q = Inr q" using c1 c2 True by (subst string_loop.simps) auto
        then show ?thesis using c1 c2 d True by (auto simp: byte_is_def scan_agrees_def)
      next
        case c2: False
        show ?thesis
        proof (cases "?c = CHR 0x5C")
          case c3: True
          show ?thesis
          proof (cases "Suc q < length s")
            case False
            then have "drop (Suc q) s = []" by simp
            then show ?thesis using c1 c2 c3 d by (simp add: scan_agrees_def)
          next
            case q1: True
            then have d1: "drop (Suc q) s = s ! Suc q # drop (Suc (Suc q)) s"
              by (simp add: Cons_nth_drop_Suc)
            let ?e = "s ! Suc q"
            show ?thesis
            proof (cases "simple_escape ?e")
              case e1: True
              have sl: "string_loop s q = string_loop s (q + 2)"
                using c1 c2 c3 True q1 e1 by (subst string_loop.simps) auto
              have ih: "scan_agrees s (q + 2) (k + 2)"
                by (rule less.hyps) (use q1 in simp_all)
              have sp: "string_spec (drop q s) k = string_spec (drop (q + 2) s) (k + 2)"
                using c1 c2 c3 e1 d d1 by simp
              show ?thesis using ih sp sl by (rule scan_agrees_shift)
            next
              case e1: False
              show ?thesis
              proof (cases "?e = CHR ''u''")
                case e2: True
                let ?es = "drop (q + 2) s"
                show ?thesis
                proof (cases "4 \<le> length ?es \<and> list_all isHexDigit (take 4 ?es)")
                  case h: True
                  then have hu: "hex_upto 4 s (q + 2) = q + 2 + 4"
                    using hex_upto_all [of 4 "q + 2" s] by simp
                  have sl: "string_loop s q = string_loop s (q + 6)"
                    using c1 c2 c3 True q1 e1 e2 hu by (subst string_loop.simps) (auto simp: add.commute)
                  have q6: "q + 6 \<le> length s" using h by auto
                  have ih: "scan_agrees s (q + 6) (k + 6)"
                    by (rule less.hyps) (use q6 True in simp_all)
                  have sp: "string_spec (drop q s) k = string_spec (drop (q + 6) s) (k + 6)"
                    using c1 c2 c3 e1 e2 d d1 h by (simp add: add.commute)
                  show ?thesis using ih sp sl by (rule scan_agrees_shift)
                next
                  case h: False
                  have "string_spec (drop q s) k = Unsettled"
                    using c1 c2 c3 e1 e2 d d1 h by auto
                  then show ?thesis by (simp add: scan_agrees_def)
                qed
              next
                case e2: False
                have sl: "string_loop s q = Inr (q + 1)"
                  using c1 c2 c3 True q1 e1 e2 by (subst string_loop.simps) auto
                have sp: "string_spec (drop q s) k = Rejected (k + 1)"
                  using c1 c2 c3 e1 e2 d d1 by simp
                have "\<not> byte_is s (q + 1) (CHR 0x22)"
                  using e1 by (auto simp: byte_is_def simple_escape_def)
                then show ?thesis using sl sp q1 by (simp add: scan_agrees_def)
              qed
            qed
          qed
        next
          case c3: False
          show ?thesis
          proof (cases "?c = CHR 0xFF")
            case True
            then show ?thesis using c1 c2 c3 d by (simp add: scan_agrees_def)
          next
            case c4: False
            then have lt: "(of_char ?c :: nat) < 0xFF" using char_lt_FF [of ?c] by blast
            have sl: "string_loop s q = string_loop s (q + 1)"
              using c1 c2 c3 True lt by (subst string_loop.simps) auto
            have ih: "scan_agrees s (q + 1) (k + 1)"
              by (rule less.hyps) (use True in simp_all)
            have sp: "string_spec (drop q s) k = string_spec (drop (q + 1) s) (k + 1)"
              using c1 c2 c3 c4 d by simp
            show ?thesis using ih sp sl by (rule scan_agrees_shift)
          qed
        qed
      qed
    qed
  qed
qed


lemma matchString_spec:
  assumes "p < length s"
  shows "(string_spec (drop (p + 1) s) 0 = Accepted k \<longrightarrow> matchString s p = Inr (True, p + k + 2))
       \<and> (string_spec (drop (p + 1) s) 0 = Rejected k \<longrightarrow>
            matchString s p = Inr (False, p + k + 1) \<and> p + k + 1 \<le> length s)"
proof -
  have a: "scan_agrees s (p + 1) 0" using assms by (intro string_loop_spec) simp
  show ?thesis
    using a unfolding scan_agrees_def matchString_def by (auto simp: add.commute add.left_commute)
qed

lemma string_token_message:
  "s ! p = CHR 0x22 \<Longrightarrow> invalid_token_message s p = Some ''string expected''"
  by (simp add: invalid_token_message_def isDigit_def)

text \<open>
  C8 (as stated). The claim makes a string a string token exactly when it is closed by
  an unescaped quote and all its escapes are recognised and well formed. The string
  \<^verbatim>\<open>"a/b"\<close> is closed and has no escape at all, yet \<^verbatim>\<open>matchString\<close> stops at the
  unescaped \<^verbatim>\<open>/\<close> (offset 2) and \<^verbatim>\<open>getNextToken\<close> returns an invalid token of all five
  bytes.
\<close>

theorem C8_raw_slash_counterexample:
  "matchString ''\"a/b\"'' 0 = Inr (False, 2)
   \<and> map_sum id fst (getNextToken ''\"a/b\"'' (SetUp 8))
       = Inr \<lparr>tok_data = 0, tok_length = 5, tok_type = INVALID_TOK\<rparr>"
  by code_simp

text \<open>
  C8 (amended). For a token that begins with a double quote at \<^verbatim>\<open>m_pos\<close>: when the scan
  of the bytes behind it is \<open>Accepted k\<close>, \<^verbatim>\<open>matchString\<close> accepts and leaves \<^verbatim>\<open>m_pos\<close>
  behind the closing quote, and \<^verbatim>\<open>getNextToken\<close> returns a string token of \<open>k + 2\<close> bytes and
  leaves the log as it was. When it is \<open>Rejected k\<close>, \<^verbatim>\<open>matchString\<close> rejects with \<^verbatim>\<open>m_pos\<close>
  at the offending byte (not at a closing quote), every token \<^verbatim>\<open>getNextToken\<close> returns is
  invalid, and it does return one when the offending byte lies inside the input and
  the log has room for the entry of the invalid token.
\<close>

theorem C8_string_scan:
  assumes "m_pos st < length s" "s ! m_pos st = CHR 0x22"
  shows "(string_spec (drop (m_pos st + 1) s) 0 = Accepted k \<longrightarrow>
            matchString s (m_pos st) = Inr (True, m_pos st + k + 2)
            \<and> getNextToken s st =
                Inr (\<lparr>tok_data = m_pos st, tok_length = k + 2, tok_type = JSON_STRING_TOK\<rparr>,
                     skipWhitespace_lines s (st\<lparr>m_pos := m_pos st + k + 2\<rparr>)))
       \<and> (string_spec (drop (m_pos st + 1) s) 0 = Rejected k \<longrightarrow>
            matchString s (m_pos st) = Inr (False, m_pos st + k + 1)
            \<and> (\<forall>token st'. getNextToken s st = Inr (token, st') \<longrightarrow>
                   tok_data token = m_pos st \<and> tok_type token = INVALID_TOK)
            \<and> (m_pos st + k + 1 < length s
                 \<and> length (m_errorLog st @ ''Invalid token at line '' @ line_text st
                          @ '': string expected'' @ [CHR 0x0A]) \<le> 255 \<longrightarrow>
                 (\<exists>n st'. getNextToken s st =
                    Inr (\<lparr>tok_data = m_pos st, tok_length = n, tok_type = INVALID_TOK\<rparr>, st'))))"
proof -
  let ?p = "m_pos st"
  have nd: "\<not> (isDigit (s ! ?p) \<or> s ! ?p = CHR ''-'')"
    using assms(2) by (simp add: isDigit_def)
  have sc: "scan_token s ?p =
      (case matchString s ?p of
         Inl e \<Rightarrow> Inl e
       | Inr (r, p') \<Rightarrow> Inr (if r then JSON_STRING_TOK else INVALID_TOK, p'))"
    using nd assms(2) by (simp add: scan_token_def Let_def)
  note msg = string_token_message [OF assms(2)]
  note ms = matchString_spec [OF assms(1), of k]
  have A: "getNextToken s st =
                Inr (\<lparr>tok_data = ?p, tok_length = k + 2, tok_type = JSON_STRING_TOK\<rparr>,
                     skipWhitespace_lines s (st\<lparr>m_pos := ?p + k + 2\<rparr>))"
    if "string_spec (drop (?p + 1) s) 0 = Accepted k"
    using ms that assms(1) sc
    by (simp add: getNextToken_def Let_def logInvalidTokenError_def)
  have R1: "tok_data token = ?p \<and> tok_type token = INVALID_TOK"
    if "string_spec (drop (?p + 1) s) 0 = Rejected k" "getNextToken s st = Inr (token, st')"
    for token st'
    using ms that assms(1) sc
    by (auto simp: getNextToken_def Let_def split: sum.splits if_splits)
  have R2: "\<exists>n st'. getNextToken s st =
                    Inr (\<lparr>tok_data = ?p, tok_length = n, tok_type = INVALID_TOK\<rparr>, st')"
    if "string_spec (drop (?p + 1) s) 0 = Rejected k" "?p + k + 1 < length s"
      "length (m_errorLog st @ ''Invalid token at line '' @ line_text st
                          @ '': string expected'' @ [CHR 0x0A]) \<le> 255"
    using ms that assms(1) sc msg
    by (simp add: getNextToken_def Let_def logInvalidTokenError_def appendToErrorLog_def
        skip_invalid_def)
  show ?thesis using ms A R1 R2 by blast
qed

theorem C8_string_scan_witness:
  "matchString [CHR 0x22, CHR ''a'', CHR 0x5C, CHR ''n'', CHR 0x22, CHR '',''] 0 = Inr (True, 5)
   \<and> map_sum id fst
         (getNextToken [CHR 0x22, CHR ''a'', CHR 0x5C, CHR ''n'', CHR 0x22, CHR '',''] (SetUp 8))
       = Inr \<lparr>tok_data = 0, tok_length = 5, tok_type = JSON_STRING_TOK\<rparr>
   \<and> matchString [CHR 0x22, CHR ''a'', CHR 0x0A, CHR ''b'', CHR 0x22] 0 = Inr (False, 2)
   \<and> (\<exists>n st'. getNextToken [CHR 0x22, CHR ''a'', CHR 0x0A, CHR ''b'', CHR 0x22] (SetUp 8)
          = Inr (\<lparr>tok_data = 0, tok_length = n, tok_type = INVALID_TOK\<rparr>, st'))
   \<and> matchString [CHR 0x22, CHR ''a'', CHR 0x5C, CHR ''q'', CHR 0x22] 0 = Inr (False, 3)
   \<and> (\<exists>n st'. getNextToken [CHR 0x22, CHR ''a'', CHR 0x5C, CHR ''q'', CHR 0x22] (SetUp 8)
          = Inr (\<lparr>tok_data = 0, tok_length = n, tok_type = INVALID_TOK\<rparr>, st'))
   \<and> matchString [CHR 0x22, CHR ''a'', CHR ''b''] 0 = Inr (False, 3)"
proof -
  let ?s1 = "[CHR 0x22, CHR ''a'', CHR 0x5C, CHR ''n'', CHR 0x22, CHR '','']"
  let ?s2 = "[CHR 0x22, CHR ''a'', CHR 0x0A, CHR ''b'', CHR 0x22]"
  let ?s3 = "[CHR 0x22, CHR ''a'', CHR 0x5C, CHR ''q'', CHR 0x22]"
  let ?s4 = "[CHR 0x22, CHR ''a'', CHR ''b'']"
  have m0: "m_pos (SetUp 8) = 0" by (simp add: SetUp_def)
  have 1: "string_spec (drop (m_pos (SetUp 8) + 1) ?s1) 0 = Accepted 3"
    unfolding m0 by (simp add: simple_escape_def)
  have 2: "string_spec (drop (m_pos (SetUp 8) + 1) ?s2) 0 = Rejected 1"
    unfolding m0 by (simp add: simple_escape_def)
  have 3: "string_spec (drop (m_pos (SetUp 8) + 1) ?s3) 0 = Rejected 2"
    unfolding m0 by (simp add: simple_escape_def)
  have 4: "string_spec (drop (m_pos (SetUp 8) + 1) ?s4) 0 = Rejected 2"
    unfolding m0 by (simp add: simple_escape_def)
  have room: "length (m_errorLog (SetUp 8) @ ''Invalid token at line '' @ line_text (SetUp 8)
                          @ '': string expected'' @ [CHR 0x0A]) \<le> 255"
    by code_simp
  have h1: "m_pos (SetUp 8) < length ?s1" "?s1 ! m_pos (SetUp 8) = CHR 0x22"
    and h2: "m_pos (SetUp 8) < length ?s2" "?s2 ! m_pos (SetUp 8) = CHR 0x22"
    and h3: "m_pos (SetUp 8) < length ?s3" "?s3 ! m_pos (SetUp 8) = CHR 0x22"
    and h4: "m_pos (SetUp 8) < length ?s4" "?s4 ! m_pos (SetUp 8) = CHR 0x22"
    unfolding m0 by simp_all
  have i2: "m_pos (SetUp 8) + 1 + 1 < length ?s2" and i3: "m_pos (SetUp 8) + 2 + 1 < length ?s3"
    unfolding m0 by simp_all
  have a1: "matchString ?s1 (m_pos (SetUp 8)) = Inr (True, m_pos (SetUp 8) + 3 + 2)"
    and b1: "getNextToken ?s1 (SetUp 8) =
           Inr (\<lparr>tok_data = m_pos (SetUp 8), tok_length = 3 + 2, tok_type = JSON_STRING_TOK\<rparr>,
                skipWhitespace_lines ?s1 ((SetUp 8)\<lparr>m_pos := m_pos (SetUp 8) + 3 + 2\<rparr>))"
    using C8_string_scan [OF h1, of 3] 1 by blast+
  have a2: "matchString ?s2 (m_pos (SetUp 8)) = Inr (False, m_pos (SetUp 8) + 1 + 1)"
    and b2: "\<exists>n st'. getNextToken ?s2 (SetUp 8) =
           Inr (\<lparr>tok_data = m_pos (SetUp 8), tok_length = n, tok_type = INVALID_TOK\<rparr>, st')"
    using C8_string_scan [OF h2, of 1] 2 i2 room by blast+
  have a3: "matchString ?s3 (m_pos (SetUp 8)) = Inr (False, m_pos (SetUp 8) + 2 + 1)"
    and b3: "\<exists>n st'. getNextToken ?s3 (SetUp 8) =
           Inr (\<lparr>tok_data = m_pos (SetUp 8), tok_length = n, tok_type = INVALID_TOK\<rparr>, st')"
    using C8_string_scan [OF h3, of 2] 3 i3 room by blast+
  have a4: "matchString ?s4 (m_pos (SetUp 8)) = Inr (False, m_pos (SetUp 8) + 2 + 1)"
    using C8_string_scan [OF h4, of 2] 4 by blast
  show ?thesis
    using a1 b1 a2 b2 a3 b3 a4 unfolding m0 by simp
qed

text \<open>
  A string that is not closed before the end of the input: \<^verbatim>\<open>matchString\<close> stops at
  \<^verbatim>\<open>m_end\<close>, and the \<^verbatim>\<open>++m_pos\<close> with which \<^verbatim>\<open>getNextToken\<close> passes over an invalid token then
  steps beyond \<^verbatim>\<open>m_end\<close>, where the loop behind it reads. No token is returned.
\<close>

lemma unterminated_string_no_token:
  assumes "m_pos st < length s" "s ! m_pos st = CHR 0x22"
    and "string_spec (drop (m_pos st + 1) s) 0 = Rejected k" "m_pos st + k + 1 = length s"
  shows "\<exists>e. getNextToken s st = Inl e"
proof -
  have nd: "\<not> (isDigit (s ! m_pos st) \<or> s ! m_pos st = CHR ''-'')"
    using assms(2) by (simp add: isDigit_def)
  have sc: "scan_token s (m_pos st) = Inr (INVALID_TOK, length s)"
    using nd assms matchString_spec [OF assms(1), of k] by (simp add: scan_token_def Let_def)
  show ?thesis
    using sc assms(1)
    by (auto simp: getNextToken_def Let_def skip_invalid_def split: sum.splits)
qed

lemma unterminated_string_reads_beyond:
  "getNextToken [CHR 0x22, CHR ''a'', CHR ''b''] (SetUp 8) = Inl OutOfBounds"
  by code_simp

text \<open>
  A \<^verbatim>\<open>\u\<close> escape with two hex digits is accepted: the \<^verbatim>\<open>break\<close> on a non-hex byte
  leaves the inner \<^verbatim>\<open>for\<close> loop only.
\<close>

lemma truncated_u_accepted:
  "matchString [CHR 0x22, CHR 0x5C, CHR ''u'', CHR ''1'', CHR ''2'', CHR 0x22] 0 = Inr (True, 6)"
  by (simp add: matchString_def string_loop.simps byte_is_def simple_escape_def isHexDigit_def
      eval_nat_numeral)

section \<open>The builder step by step\<close>

text \<open>
  What a successful run of each builder function consists of, and a rule for properties
  of the parser that every statement of the builder preserves.
\<close>

declare parseArray.simps [simp del] arrayLoop.simps [simp del] parseObject.simps [simp del]
  objectLoop.simps [simp del] Parse_loop.simps [simp del]

lemma run_eq_Inr: "(run m k = Inr x) = (\<exists>st. m = Inr st \<and> k st = Inr x)"
  by (cases m) (auto simp: run_def)

lemma step_eq_True:
  "(step m k = Inr (True, x)) = (\<exists>st. m = Inr (True, st) \<and> k st = Inr (True, x))"
  by (cases m) (auto simp: step_def split: if_splits)

lemma step_eq_Inr:
  "(step m k = Inr (r, x)) =
     ((m = Inr (False, x) \<and> \<not> r) \<or> (\<exists>st. m = Inr (True, st) \<and> k st = Inr (r, x)))"
  by (cases m) (auto simp: step_def split: if_splits)

lemma expect_True_iff: "(expect b msg st = Inr (True, st')) = (b \<and> st' = st)"
  by (auto simp: expect_def split: sum.splits)

lemma advance_fields:
  "advance s st = Inr st' \<Longrightarrow>
   m_nodes st' = m_nodes st \<and> m_errorCode st' = m_errorCode st
   \<and> m_tokenCapacity st' = m_tokenCapacity st"
  by (auto simp: advance_def getNextToken_def Let_def logInvalidTokenError_def
      appendToErrorLog_def skipWhitespace_lines_def split: sum.splits if_splits)

lemma pushNode_True_iff:
  "(pushNode st = Inr (True, st')) =
     (length (m_nodes st) < m_tokenCapacity st
      \<and> (\<exists>n. make_node (m_currentToken st) = Inr n \<and> st' = st\<lparr>m_nodes := m_nodes st @ [n]\<rparr>))"
  by (auto simp: pushNode_def split: sum.splits)

definition parse_nested ::
  "nat \<Rightarrow> string \<Rightarrow> JsonTokenType \<Rightarrow> JsonParser \<Rightarrow> error + bool \<times> JsonParser" where
  "parse_nested fuel s ty st =
     (if ty = JSON_ARRAY_BEGIN then parseArray fuel s st
      else if ty = JSON_OBJECT_BEGIN then parseObject fuel s st
      else Inr (True, st))"

definition value_token :: "JsonTokenType \<Rightarrow> bool" where
  "value_token ty =
     (ty = JSON_TRUE_TOK \<or> ty = JSON_FALSE_TOK \<or> ty = JSON_NULL_TOK \<or> ty = JSON_NUMBER_TOK
      \<or> ty = JSON_STRING_TOK \<or> ty = JSON_FLOAT_HEX_TOK \<or> ty = JSON_DOUBLE_HEX_TOK
      \<or> ty = JSON_ARRAY_BEGIN \<or> ty = JSON_OBJECT_BEGIN)"

lemma parseArray_True_iff:
  "(parseArray (Suc f) s st = Inr (True, st')) =
     (\<exists>st1. advance s st = Inr st1
        \<and> (if tok_type (m_currentToken st1) = JSON_ARRAY_END then st' = st1
            else arrayLoop f s (getLastNode st1) None st1 = Inr (True, st')))"
  by (auto simp: parseArray.simps run_eq_Inr)

lemma parseObject_True_iff:
  "(parseObject (Suc f) s st = Inr (True, st')) =
     (\<exists>st1. advance s st = Inr st1
        \<and> (if tok_type (m_currentToken st1) = JSON_OBJECT_END then st' = st1
            else objectLoop f s (getLastNode st1) None None st1 = Inr (True, st')))"
  by (auto simp: parseObject.simps run_eq_Inr)

lemma arrayLoop_True_iff:
  "(arrayLoop (Suc f) s complex_node prev st = Inr (True, st')) =
     (if \<not> m_pos st < length s then st' = st
      else value_token (tok_type (m_currentToken st))
        \<and> (\<exists>st2 st3 st4 st5 st6.
              pushNode st = Inr (True, st2)
            \<and> increment_count complex_node st2 = Inr st3
            \<and> link_previous prev (getLastNode st3) st3 = Inr st4
            \<and> parse_nested f s (tok_type (m_currentToken st)) st4 = Inr (True, st5)
            \<and> advance s st5 = Inr st6
            \<and> (if tok_type (m_currentToken st6) = JSON_ARRAY_END then st' = st6
                else tok_type (m_currentToken st6) = JSON_COMMA
                  \<and> (\<exists>st7. advance s st6 = Inr st7
                        \<and> arrayLoop f s complex_node (getLastNode st3) st7 = Inr (True, st')))))"
proof (cases "m_pos st < length s")
  case False
  then show ?thesis by (auto simp: arrayLoop.simps)
next
  case True
  have vt: "(isPrimitiveValueToken (m_currentToken st)
             \<or> tok_type (m_currentToken st) = JSON_ARRAY_BEGIN
             \<or> tok_type (m_currentToken st) = JSON_OBJECT_BEGIN)
            = value_token (tok_type (m_currentToken st))"
    by (auto simp: value_token_def isPrimitiveValueToken_def)
  have pn: "\<And>x. (if tok_type (m_currentToken st) = JSON_ARRAY_BEGIN then parseArray f s x
             else if tok_type (m_currentToken st) = JSON_OBJECT_BEGIN then parseObject f s x
             else Inr (True, x)) = parse_nested f s (tok_type (m_currentToken st)) x"
    by (simp add: parse_nested_def)
  show ?thesis
    using True
    apply (simp only: arrayLoop.simps Let_def vt pn if_False not_not if_True simp_thms)
    apply (simp add: run_eq_Inr step_eq_True expect_True_iff cong: if_cong)
    apply blast
    done
qed

lemma objectLoop_True_iff:
  "(objectLoop (Suc f) s complex_node prev_key prev_value st = Inr (True, st')) =
     (if \<not> m_pos st < length s then st' = st
      else tok_type (m_currentToken st) = JSON_STRING_TOK
        \<and> (\<exists>st2 st3 st4 st5 st6 st7 st8 st9 st10.
              pushNode (st\<lparr>m_currentToken := (m_currentToken st)\<lparr>tok_type := JSON_KEY_TOK\<rparr>\<rparr>)
                = Inr (True, st2)
            \<and> link_previous prev_key (getLastNode st2) st2 = Inr st3
            \<and> advance s st3 = Inr st4
            \<and> tok_type (m_currentToken st4) = JSON_COLON
            \<and> advance s st4 = Inr st5
            \<and> value_token (tok_type (m_currentToken st5))
            \<and> pushNode st5 = Inr (True, st6)
            \<and> increment_count complex_node st6 = Inr st7
            \<and> link_previous prev_value (getLastNode st7) st7 = Inr st8
            \<and> parse_nested f s (tok_type (m_currentToken st5)) st8 = Inr (True, st9)
            \<and> advance s st9 = Inr st10
            \<and> (if tok_type (m_currentToken st10) = JSON_OBJECT_END then st' = st10
                else tok_type (m_currentToken st10) = JSON_COMMA
                  \<and> (\<exists>st11. advance s st10 = Inr st11
                        \<and> objectLoop f s complex_node (getLastNode st2) (getLastNode st7) st11
                            = Inr (True, st')))))"
proof (cases "m_pos st < length s")
  case False
  then show ?thesis by (auto simp: objectLoop.simps)
next
  case True
  have vt: "\<And>x. (isPrimitiveValueToken (m_currentToken x)
             \<or> tok_type (m_currentToken x) = JSON_ARRAY_BEGIN
             \<or> tok_type (m_currentToken x) = JSON_OBJECT_BEGIN)
            = value_token (tok_type (m_currentToken x))"
    by (auto simp: value_token_def isPrimitiveValueToken_def)
  have pn: "\<And>x y. (if tok_type (m_currentToken y) = JSON_ARRAY_BEGIN then parseArray f s x
             else if tok_type (m_currentToken y) = JSON_OBJECT_BEGIN then parseObject f s x
             else Inr (True, x)) = parse_nested f s (tok_type (m_currentToken y)) x"
    by (simp add: parse_nested_def)
  show ?thesis
    using True
    apply (simp only: objectLoop.simps Let_def vt pn if_False not_not if_True simp_thms)
    apply (simp add: run_eq_Inr step_eq_True expect_True_iff cong: if_cong)
    apply blast
    done
qed

lemma Parse_loop_True_iff:
  "(Parse_loop (Suc f) s st = Inr (True, st')) =
     (if \<not> m_pos st < length s then st' = st
      else (\<exists>st1 pushed st2 st3.
              advance s st = Inr st1
            \<and> (tok_type (m_currentToken st1) = JSON_ARRAY_BEGIN
                 \<or> tok_type (m_currentToken st1) = JSON_OBJECT_BEGIN)
            \<and> pushNode st1 = Inr (pushed, st2)
            \<and> parse_nested f s (tok_type (m_currentToken st1)) st2 = Inr (True, st3)
            \<and> Parse_loop f s st3 = Inr (True, st')))"
proof (cases "m_pos st < length s")
  case False
  then show ?thesis by (auto simp: Parse_loop.simps)
next
  case True
  show ?thesis
  proof (cases "advance s st")
    case (Inl e)
    then show ?thesis using True by (simp add: Parse_loop.simps run_def)
  next
    case (Inr st1)
    show ?thesis
    proof (cases "pushNode st1")
      case (Inl e)
      then show ?thesis
        using True Inr by (auto simp: Parse_loop.simps Let_def run_def step_eq_True expect_True_iff)
    next
      case push: (Inr x)
      obtain pushed st2 where x: "x = (pushed, st2)" by (cases x)
      show ?thesis
        using True Inr push x
        by (auto simp: Parse_loop.simps Let_def run_def step_eq_True expect_True_iff parse_nested_def)
    qed
  qed
qed


lemma step_inv:
  assumes "step m k = Inr (r, x)"
    and "\<And>r' st. m = Inr (r', st) \<Longrightarrow> P st"
    and "\<And>st. P st \<Longrightarrow> k st = Inr (r, x) \<Longrightarrow> P x"
  shows "P x"
  using assms by (cases m) (auto simp: step_def split: if_splits)

lemma run_inv:
  assumes "run m k = Inr (r, x)"
    and "\<And>st. m = Inr st \<Longrightarrow> P st"
    and "\<And>st. P st \<Longrightarrow> k st = Inr (r, x) \<Longrightarrow> P x"
  shows "P x"
  using assms by (cases m) (auto simp: run_def)

lemma builder_invariant:
  assumes adv: "\<And>st st'. advance s st = Inr st' \<Longrightarrow> P st \<Longrightarrow> P st'"
    and push: "\<And>st r st'. pushNode st = Inr (r, st') \<Longrightarrow> P st \<Longrightarrow> P st'"
    and exp: "\<And>b msg st r st'. expect b msg st = Inr (r, st') \<Longrightarrow> P st \<Longrightarrow> P st'"
    and inc: "\<And>c st st'. increment_count c st = Inr st' \<Longrightarrow> P st \<Longrightarrow> P st'"
    and link: "\<And>a b st st'. link_previous a b st = Inr st' \<Longrightarrow> P st \<Longrightarrow> P st'"
    and key: "\<And>st. P st \<Longrightarrow> P (st\<lparr>m_currentToken := (m_currentToken st)\<lparr>tok_type := JSON_KEY_TOK\<rparr>\<rparr>)"
  shows "(\<forall>st r st'. parseArray f s st = Inr (r, st') \<longrightarrow> P st \<longrightarrow> P st')
       \<and> (\<forall>c p st r st'. arrayLoop f s c p st = Inr (r, st') \<longrightarrow> P st \<longrightarrow> P st')
       \<and> (\<forall>st r st'. parseObject f s st = Inr (r, st') \<longrightarrow> P st \<longrightarrow> P st')
       \<and> (\<forall>c k v st r st'. objectLoop f s c k v st = Inr (r, st') \<longrightarrow> P st \<longrightarrow> P st')"
proof (induction f)
  case 0
  show ?case by (simp add: parseArray.simps arrayLoop.simps parseObject.simps objectLoop.simps)
next
  case (Suc f)
  have ihA: "\<And>st r st'. parseArray f s st = Inr (r, st') \<Longrightarrow> P st \<Longrightarrow> P st'"
    and ihAL: "\<And>c p st r st'. arrayLoop f s c p st = Inr (r, st') \<Longrightarrow> P st \<Longrightarrow> P st'"
    and ihO: "\<And>st r st'. parseObject f s st = Inr (r, st') \<Longrightarrow> P st \<Longrightarrow> P st'"
    and ihOL: "\<And>c k v st r st'. objectLoop f s c k v st = Inr (r, st') \<Longrightarrow> P st \<Longrightarrow> P st'"
    using Suc.IH by blast+
  have nested: "\<And>a o' st r st'.
      (if a then parseArray f s st else if o' then parseObject f s st else Inr (True, st))
        = Inr (r, st') \<Longrightarrow> P st \<Longrightarrow> P st'"
    using ihA ihO by (auto split: if_splits)
  have A: "P st'" if h: "parseArray (Suc f) s st = Inr (r, st')" and p: "P st" for st r st'
    using h [unfolded parseArray.simps]
    apply (rule run_inv)
     apply (erule adv, rule p)
    apply (auto split: if_splits dest: ihAL)
    done
  have O: "P st'" if h: "parseObject (Suc f) s st = Inr (r, st')" and p: "P st" for st r st'
    using h [unfolded parseObject.simps]
    apply (rule run_inv)
     apply (erule adv, rule p)
    apply (auto split: if_splits dest: ihOL)
    done
  have AL: "P st'" if h: "arrayLoop (Suc f) s c pv st = Inr (r, st')" and p: "P st"
    for c pv st r st'
  proof (cases "m_pos st < length s")
    case False
    then show ?thesis using h p by (simp add: arrayLoop.simps)
  next
    case True
    show ?thesis
      using h True unfolding arrayLoop.simps Let_def
      apply simp
      apply (erule step_inv, erule exp, rule p)
      apply (erule step_inv, erule push, assumption)
      apply (erule run_inv, erule inc, assumption)
      apply (erule run_inv, erule link, assumption)
      apply (erule step_inv, erule nested, assumption)
      apply (erule run_inv, erule adv, assumption)
      apply (simp split: if_splits)
      apply (erule step_inv, erule exp, assumption)
      apply (erule run_inv, erule adv, assumption)
      apply (erule ihAL, assumption)
      done
  qed
  have OL: "P st'" if h: "objectLoop (Suc f) s c pk pv st = Inr (r, st')" and p: "P st"
    for c pk pv st r st'
  proof (cases "m_pos st < length s")
    case False
    then show ?thesis using h p by (simp add: objectLoop.simps)
  next
    case True
    show ?thesis
      using h True unfolding objectLoop.simps Let_def
      apply simp
      apply (erule step_inv, erule exp, rule p)
      apply (erule step_inv, erule push, erule key)
      apply (erule run_inv, erule link, assumption)
      apply (erule run_inv, erule adv, assumption)
      apply (erule step_inv, erule exp, assumption)
      apply (erule run_inv, erule adv, assumption)
      apply (erule step_inv, erule exp, assumption)
      apply (erule step_inv, erule push, assumption)
      apply (erule run_inv, erule inc, assumption)
      apply (erule run_inv, erule link, assumption)
      apply (erule step_inv, erule nested, assumption)
      apply (erule run_inv, erule adv, assumption)
      apply (simp split: if_splits)
      apply (erule step_inv, erule exp, assumption)
      apply (erule run_inv, erule adv, assumption)
      apply (erule ihOL, assumption)
      done
  qed
  show ?case using A AL O OL by blast
qed


lemma Parse_loop_invariant:
  assumes adv: "\<And>st st'. advance s st = Inr st' \<Longrightarrow> P st \<Longrightarrow> P st'"
    and push: "\<And>st r st'. pushNode st = Inr (r, st') \<Longrightarrow> P st \<Longrightarrow> P st'"
    and exp: "\<And>b msg st r st'. expect b msg st = Inr (r, st') \<Longrightarrow> P st \<Longrightarrow> P st'"
    and inc: "\<And>c st st'. increment_count c st = Inr st' \<Longrightarrow> P st \<Longrightarrow> P st'"
    and link: "\<And>a b st st'. link_previous a b st = Inr st' \<Longrightarrow> P st \<Longrightarrow> P st'"
    and key: "\<And>st. P st \<Longrightarrow> P (st\<lparr>m_currentToken := (m_currentToken st)\<lparr>tok_type := JSON_KEY_TOK\<rparr>\<rparr>)"
  shows "Parse_loop f s st = Inr (r, st') \<Longrightarrow> P st \<Longrightarrow> P st'"
proof (induction f arbitrary: st)
  case 0
  then show ?case by (simp add: Parse_loop.simps)
next
  case (Suc f)
  note inv = builder_invariant [of s P f, OF adv push exp inc link key]
  have nested: "\<And>a st r st'.
      (if a then parseArray f s st else parseObject f s st) = Inr (r, st') \<Longrightarrow> P st \<Longrightarrow> P st'"
    using inv by (auto split: if_splits)
  show ?case
  proof (cases "m_pos st < length s")
    case False
    then show ?thesis using Suc.prems by (simp add: Parse_loop.simps)
  next
    case True
    show ?thesis
      using Suc.prems(1) True unfolding Parse_loop.simps Let_def
      apply simp
      apply (erule run_inv, erule adv, rule Suc.prems(2))
      apply (erule step_inv, erule exp, assumption)
      apply (simp split: sum.splits prod.splits)
      apply (erule step_inv, erule nested, erule push, assumption)
      apply (erule Suc.IH, assumption)
      done
  qed
qed

section \<open>Subtrees in a growing buffer\<close>

text \<open>
  A subtree stays a subtree when the buffer changes outside it; a chain of elements is
  extended by linking its last element to a new subtree behind it.
\<close>

lemma bounds:
  "(value_at ns i j \<longrightarrow> i < j \<and> j \<le> length ns)
   \<and> (elems ns ps j \<longrightarrow> ps \<noteq> [] \<and> hd ps < j \<and> j \<le> length ns \<and> hd ps \<le> last ps \<and> last ps < j)
   \<and> (props ns ks j \<longrightarrow> ks \<noteq> [] \<and> Suc (hd ks) < j \<and> j \<le> length ns \<and> hd ks \<le> last ks
        \<and> Suc (last ks) < j)"
  by (induction rule: value_at_elems_props.induct) auto

lemma value_at_bounds: "value_at ns i j \<Longrightarrow> i < j \<and> j \<le> length ns"
  using bounds by blast

lemma elems_bounds:
  "elems ns ps j \<Longrightarrow> ps \<noteq> [] \<and> hd ps < j \<and> j \<le> length ns \<and> hd ps \<le> last ps \<and> last ps < j"
  using bounds by blast

lemma props_bounds:
  "props ns ks j \<Longrightarrow> ks \<noteq> [] \<and> Suc (hd ks) < j \<and> j \<le> length ns \<and> hd ks \<le> last ks
     \<and> Suc (last ks) < j"
  using bounds by blast

definition same_inside :: "JsonNode list \<Rightarrow> JsonNode list \<Rightarrow> nat \<Rightarrow> nat \<Rightarrow> bool" where
  "same_inside ns ns' i j = (j \<le> length ns' \<and> (\<forall>k. i \<le> k \<and> k < j \<longrightarrow> ns' ! k = ns ! k))"

definition same_root :: "JsonNode list \<Rightarrow> JsonNode list \<Rightarrow> nat \<Rightarrow> nat \<Rightarrow> bool" where
  "same_root ns ns' i j =
     (type (ns' ! i) = type (ns ! i) \<and> count (ns' ! i) = count (ns ! i)
      \<and> same_inside ns ns' (Suc i) j)"

lemma same_inside_sub:
  "same_inside ns ns' i j \<Longrightarrow> i \<le> i' \<Longrightarrow> j' \<le> j \<Longrightarrow> same_inside ns ns' i' j'"
  by (auto simp: same_inside_def)

lemma same_inside_root:
  "same_inside ns ns' i j \<Longrightarrow> i < j' \<Longrightarrow> j' \<le> j \<Longrightarrow> same_root ns ns' i j'"
  by (auto simp: same_inside_def same_root_def)

lemma frame:
  "(value_at ns i j \<longrightarrow> (\<forall>ns'. same_root ns ns' i j \<longrightarrow> value_at ns' i j))
   \<and> (elems ns ps j \<longrightarrow> (\<forall>ns'. same_inside ns ns' (hd ps) j \<longrightarrow> elems ns' ps j))
   \<and> (props ns ks j \<longrightarrow> (\<forall>ns'. same_inside ns ns' (hd ks) j \<longrightarrow> props ns' ks j))"
proof (induct rule: value_at_elems_props.induct)
  case (scalar i)
  then show ?case
    by (auto simp: same_root_def same_inside_def intro!: value_at_elems_props.scalar)
next
  case (empty i)
  then show ?case
    by (auto simp: same_root_def same_inside_def IsComplex_def IsArray_def IsObject_def
        intro!: value_at_elems_props.empty)
next
  case (array i ps j)
  have e: "elems ns (Suc i # ps) j" by fact
  have ih: "\<forall>ns'. same_inside ns ns' (hd (Suc i # ps)) j \<longrightarrow> elems ns' (Suc i # ps) j" by fact
  have h: "IsArray (ns ! i)" "count (ns ! i) = Suc (length ps)" by fact+
  show ?case
  proof (intro allI impI)
    fix ns' assume a: "same_root ns ns' i j"
    have b: "Suc i < j" using elems_bounds [OF e] by simp
    have "elems ns' (Suc i # ps) j" using ih a by (simp add: same_root_def)
    moreover have "i < length ns'" using a b by (simp add: same_root_def same_inside_def)
    ultimately show "value_at ns' i j"
      using h a by (auto simp: same_root_def IsArray_def intro: value_at_elems_props.array)
  qed
next
  case (object i ks j)
  have e: "props ns (Suc i # ks) j" by fact
  have ih: "\<forall>ns'. same_inside ns ns' (hd (Suc i # ks)) j \<longrightarrow> props ns' (Suc i # ks) j" by fact
  have h: "IsObject (ns ! i)" "count (ns ! i) = Suc (length ks)" by fact+
  show ?case
  proof (intro allI impI)
    fix ns' assume a: "same_root ns ns' i j"
    have b: "Suc i < j" using props_bounds [OF e] by simp
    have "props ns' (Suc i # ks) j" using ih a by (simp add: same_root_def)
    moreover have "i < length ns'" using a b by (simp add: same_root_def same_inside_def)
    ultimately show "value_at ns' i j"
      using h a by (auto simp: same_root_def IsObject_def intro: value_at_elems_props.object)
  qed
next
  case (elems_last p j)
  have v: "value_at ns p j" by fact
  have ih: "\<forall>ns'. same_root ns ns' p j \<longrightarrow> value_at ns' p j" by fact
  have h: "nxt (ns ! p) = None" by fact
  show ?case
  proof (intro allI impI)
    fix ns' assume a: "same_inside ns ns' (hd [p]) j"
    have b: "p < j" using value_at_bounds [OF v] by simp
    have "same_root ns ns' p j" using a b by (intro same_inside_root) auto
    then have "value_at ns' p j" using ih by simp
    moreover have "ns' ! p = ns ! p" using a b by (simp add: same_inside_def)
    ultimately show "elems ns' [p] j"
      using h by (auto intro: value_at_elems_props.elems_last)
  qed
next
  case (elems_cons p q ps j)
  have v: "value_at ns p q" by fact
  have ihv: "\<forall>ns'. same_root ns ns' p q \<longrightarrow> value_at ns' p q" by fact
  have e: "elems ns (q # ps) j" by fact
  have ihe: "\<forall>ns'. same_inside ns ns' (hd (q # ps)) j \<longrightarrow> elems ns' (q # ps) j" by fact
  have h: "nxt (ns ! p) = Some q" by fact
  show ?case
  proof (intro allI impI)
    fix ns' assume a: "same_inside ns ns' (hd (p # q # ps)) j"
    have b: "p < q" using value_at_bounds [OF v] by simp
    have c: "q < j" using elems_bounds [OF e] by simp
    have "same_root ns ns' p q" using a b c by (intro same_inside_root) auto
    then have 1: "value_at ns' p q" using ihv by simp
    have 2: "ns' ! p = ns ! p" using a b c by (simp add: same_inside_def)
    have "same_inside ns ns' (hd (q # ps)) j" using a b by (auto intro: same_inside_sub)
    then have 3: "elems ns' (q # ps) j" using ihe by simp
    show "elems ns' (p # q # ps) j"
      using 1 2 3 h by (auto intro: value_at_elems_props.elems_cons)
  qed
next
  case (props_last k j)
  have v: "value_at ns (Suc k) j" by fact
  have ih: "\<forall>ns'. same_root ns ns' (Suc k) j \<longrightarrow> value_at ns' (Suc k) j" by fact
  have h: "IsKey (ns ! k)" "nxt (ns ! k) = None" "nxt (ns ! Suc k) = None" by fact+
  show ?case
  proof (intro allI impI)
    fix ns' assume a: "same_inside ns ns' (hd [k]) j"
    have b: "Suc k < j" using value_at_bounds [OF v] by simp
    have "same_root ns ns' (Suc k) j" using a b by (auto simp: same_inside_def same_root_def)
    then have 1: "value_at ns' (Suc k) j" using ih by simp
    have 2: "ns' ! k = ns ! k" "ns' ! Suc k = ns ! Suc k" "k < length ns'"
      using a b by (auto simp: same_inside_def)
    show "props ns' [k] j"
      using 1 2 h by (auto intro: value_at_elems_props.props_last)
  qed
next
  case (props_cons k q ks j)
  have v: "value_at ns (Suc k) q" by fact
  have ihv: "\<forall>ns'. same_root ns ns' (Suc k) q \<longrightarrow> value_at ns' (Suc k) q" by fact
  have e: "props ns (q # ks) j" by fact
  have ihe: "\<forall>ns'. same_inside ns ns' (hd (q # ks)) j \<longrightarrow> props ns' (q # ks) j" by fact
  have h: "IsKey (ns ! k)" "nxt (ns ! k) = Some q" "nxt (ns ! Suc k) = Some (Suc q)" by fact+
  show ?case
  proof (intro allI impI)
    fix ns' assume a: "same_inside ns ns' (hd (k # q # ks)) j"
    have b: "Suc k < q" using value_at_bounds [OF v] by simp
    have c: "Suc q < j" using props_bounds [OF e] by simp
    have "same_root ns ns' (Suc k) q" using a b c by (auto simp: same_inside_def same_root_def)
    then have 1: "value_at ns' (Suc k) q" using ihv by simp
    have 2: "ns' ! k = ns ! k" "ns' ! Suc k = ns ! Suc k" "k < length ns'"
      using a b c by (auto simp: same_inside_def)
    have "same_inside ns ns' (hd (q # ks)) j" using a b by (auto intro: same_inside_sub)
    then have 3: "props ns' (q # ks) j" using ihe by simp
    show "props ns' (k # q # ks) j"
      using 1 2 3 h by (auto intro: value_at_elems_props.props_cons)
  qed
qed

lemma value_at_frame: "value_at ns i j \<Longrightarrow> same_root ns ns' i j \<Longrightarrow> value_at ns' i j"
  using frame by blast

lemma elems_frame: "elems ns ps j \<Longrightarrow> same_inside ns ns' (hd ps) j \<Longrightarrow> elems ns' ps j"
  using frame by blast

lemma props_frame: "props ns ks j \<Longrightarrow> same_inside ns ns' (hd ks) j \<Longrightarrow> props ns' ks j"
  using frame by blast


inductive_cases elems_singleE: "elems ns [p] j"
inductive_cases elems_consE: "elems ns (p # q # ps) j"
inductive_cases props_singleE: "props ns [k] j"
inductive_cases props_consE: "props ns (k # q # ks) j"

lemma elems_snoc:
  "elems ns ps q \<Longrightarrow>
   (\<forall>k. hd ps \<le> k \<and> k < q \<and> k \<noteq> last ps \<longrightarrow> ns' ! k = ns ! k) \<Longrightarrow>
   ns' ! last ps = (ns ! last ps)\<lparr>nxt := Some q\<rparr> \<Longrightarrow>
   value_at ns' q j \<Longrightarrow> nxt (ns' ! q) = None \<Longrightarrow>
   elems ns' (ps @ [q]) j"
proof (induction ps)
  case Nil
  then show ?case using elems_bounds by blast
next
  case (Cons p ps)
  have qb: "q < j" "j \<le> length ns'" using value_at_bounds [OF Cons.prems(4)] by auto
  show ?case
  proof (cases ps)
    case Nil
    with Cons.prems(1) have v: "value_at ns p q" by (auto elim: elems_singleE)
    have pq: "p < q" using value_at_bounds [OF v] by simp
    have "same_root ns ns' p q"
      using Cons.prems(2,3) Nil qb pq by (auto simp: same_root_def same_inside_def)
    then have 1: "value_at ns' p q" using v by (rule value_at_frame [rotated])
    have 2: "nxt (ns' ! p) = Some q" using Cons.prems(3) Nil by simp
    have 3: "elems ns' [q] j" using Cons.prems(4,5) by (rule value_at_elems_props.elems_last)
    show ?thesis using 1 2 3 Nil by (auto intro: value_at_elems_props.elems_cons)
  next
    case (Cons p2 ps2)
    with Cons.prems(1) have v: "value_at ns p p2" and n: "nxt (ns ! p) = Some p2"
      and e: "elems ns (p2 # ps2) q" by (auto elim: elems_consE)
    have pq: "p < p2" using value_at_bounds [OF v] by simp
    have lb: "p2 \<le> last (p2 # ps2)" "last (p2 # ps2) < q" using elems_bounds [OF e] by auto
    have l: "last (p # ps) = last (p2 # ps2)" using Cons by simp
    have a: "\<forall>k. hd (p2 # ps2) \<le> k \<and> k < q \<and> k \<noteq> last (p2 # ps2) \<longrightarrow> ns' ! k = ns ! k"
      using Cons.prems(2) pq l by auto
    have b: "ns' ! last (p2 # ps2) = (ns ! last (p2 # ps2))\<lparr>nxt := Some q\<rparr>"
      using Cons.prems(3) l by simp
    have ih: "elems ns' ((p2 # ps2) @ [q]) j"
      using Cons.IH [unfolded Cons, OF e a b Cons.prems(4,5)] .
    have "same_root ns ns' p p2"
      using Cons.prems(2) l lb pq qb by (auto simp: same_root_def same_inside_def)
    then have 1: "value_at ns' p p2" using v by (rule value_at_frame [rotated])
    have 2: "nxt (ns' ! p) = Some p2" using Cons.prems(2) l lb pq n by auto
    show ?thesis using 1 2 ih Cons by (auto intro: value_at_elems_props.elems_cons)
  qed
qed

lemma props_snoc:
  "props ns ks q \<Longrightarrow>
   (\<forall>k. hd ks \<le> k \<and> k < q \<and> k \<noteq> last ks \<and> k \<noteq> Suc (last ks) \<longrightarrow> ns' ! k = ns ! k) \<Longrightarrow>
   ns' ! last ks = (ns ! last ks)\<lparr>nxt := Some q\<rparr> \<Longrightarrow>
   (\<exists>c. ns' ! Suc (last ks) = (ns ! Suc (last ks))\<lparr>nxt := Some (Suc q)\<rparr>) \<Longrightarrow>
   IsKey (ns' ! q) \<Longrightarrow> nxt (ns' ! q) = None \<Longrightarrow>
   value_at ns' (Suc q) j \<Longrightarrow> nxt (ns' ! Suc q) = None \<Longrightarrow>
   props ns' (ks @ [q]) j"
proof (induction ks)
  case Nil
  then show ?case using props_bounds by blast
next
  case (Cons k ks)
  have qb: "Suc q < j" "j \<le> length ns'" using value_at_bounds [OF Cons.prems(7)] by auto
  have new: "props ns' [q] j"
    using Cons.prems(5,6,7,8) qb by (auto intro: value_at_elems_props.props_last)
  show ?case
  proof (cases ks)
    case Nil
    with Cons.prems(1) have v: "value_at ns (Suc k) q" and ik: "IsKey (ns ! k)"
      by (auto elim: props_singleE)
    have kq: "Suc k < q" using value_at_bounds [OF v] by simp
    have "same_root ns ns' (Suc k) q"
      using Cons.prems(2,4) Nil qb kq by (auto simp: same_root_def same_inside_def)
    then have 1: "value_at ns' (Suc k) q" using v by (rule value_at_frame [rotated])
    have 2: "nxt (ns' ! k) = Some q" "IsKey (ns' ! k)" "k < length ns'"
      using Cons.prems(3) Nil ik kq qb by (auto simp: IsKey_def)
    have 3: "nxt (ns' ! Suc k) = Some (Suc q)" using Cons.prems(4) Nil by auto
    show ?thesis using 1 2 3 new Nil by (auto intro: value_at_elems_props.props_cons)
  next
    case (Cons k2 ks2)
    with Cons.prems(1) have v: "value_at ns (Suc k) k2" and n: "nxt (ns ! k) = Some k2"
      and nv: "nxt (ns ! Suc k) = Some (Suc k2)" and ik: "IsKey (ns ! k)"
      and e: "props ns (k2 # ks2) q" by (auto elim: props_consE)
    have kq: "Suc k < k2" using value_at_bounds [OF v] by simp
    have lb: "k2 \<le> last (k2 # ks2)" "Suc (last (k2 # ks2)) < q" using props_bounds [OF e] by auto
    have l: "last (k # ks) = last (k2 # ks2)" using Cons by simp
    have a: "\<forall>m. hd (k2 # ks2) \<le> m \<and> m < q \<and> m \<noteq> last (k2 # ks2) \<and> m \<noteq> Suc (last (k2 # ks2))
               \<longrightarrow> ns' ! m = ns ! m"
      using Cons.prems(2) kq l by auto
    have b: "ns' ! last (k2 # ks2) = (ns ! last (k2 # ks2))\<lparr>nxt := Some q\<rparr>"
      using Cons.prems(3) l by simp
    have c: "\<exists>c. ns' ! Suc (last (k2 # ks2)) = (ns ! Suc (last (k2 # ks2)))\<lparr>nxt := Some (Suc q)\<rparr>"
      using Cons.prems(4) l by simp
    have ih: "props ns' ((k2 # ks2) @ [q]) j"
      using Cons.IH [unfolded Cons, OF e a b c Cons.prems(5,6,7,8)] .
    have "same_root ns ns' (Suc k) k2"
      using Cons.prems(2) l lb kq qb by (auto simp: same_root_def same_inside_def)
    then have 1: "value_at ns' (Suc k) k2" using v by (rule value_at_frame [rotated])
    have 2: "ns' ! k = ns ! k" "ns' ! Suc k = ns ! Suc k" "k < length ns'"
      using Cons.prems(2) l lb kq qb by auto
    show ?thesis using 1 2 n nv ik ih Cons by (auto intro: value_at_elems_props.props_cons)
  qed
qed


definition incr :: "nat \<Rightarrow> JsonNode list \<Rightarrow> JsonNode list" where
  "incr a ns = ns[a := (ns ! a)\<lparr>count := count (ns ! a) + 1\<rparr>]"

definition link :: "nat option \<Rightarrow> nat \<Rightarrow> JsonNode list \<Rightarrow> JsonNode list" where
  "link prev l ns = (case prev of None \<Rightarrow> ns | Some p \<Rightarrow> ns[p := (ns ! p)\<lparr>nxt := Some l\<rparr>])"

definition grown :: "JsonNode list \<Rightarrow> JsonNode list \<Rightarrow> nat \<Rightarrow> bool" where
  "grown ns ns' a =
     (length ns \<le> length ns' \<and> take a ns' = take a ns
      \<and> (\<exists>c. ns' ! a = (ns ! a)\<lparr>count := c\<rparr>) \<and> value_at ns' a (length ns'))"

definition array_inv :: "JsonNode list \<Rightarrow> nat \<Rightarrow> nat option \<Rightarrow> bool" where
  "array_inv ns a prev =
     (a < length ns \<and> IsArray (ns ! a)
      \<and> (case prev of
            None \<Rightarrow> count (ns ! a) = 0 \<and> length ns = Suc a
          | Some p \<Rightarrow>
              (\<exists>ps. elems ns (Suc a # ps) (length ns) \<and> last (Suc a # ps) = p
                    \<and> count (ns ! a) = Suc (length ps))))"

definition object_inv :: "JsonNode list \<Rightarrow> nat \<Rightarrow> nat option \<Rightarrow> nat option \<Rightarrow> bool" where
  "object_inv ns a prev_key prev_value =
     (a < length ns \<and> IsObject (ns ! a)
      \<and> (case prev_key of
            None \<Rightarrow> prev_value = None \<and> count (ns ! a) = 0 \<and> length ns = Suc a
          | Some k \<Rightarrow>
              prev_value = Some (Suc k)
              \<and> (\<exists>ks. props ns (Suc a # ks) (length ns) \<and> last (Suc a # ks) = k
                    \<and> count (ns ! a) = Suc (length ks))))"

lemma array_inv_value: "array_inv ns a prev \<Longrightarrow> value_at ns a (length ns)"
  unfolding array_inv_def
  by (cases prev)
    (auto simp: IsComplex_def intro: value_at_elems_props.empty value_at_elems_props.array)

lemma object_inv_value: "object_inv ns a pk pv \<Longrightarrow> value_at ns a (length ns)"
  unfolding object_inv_def
  by (cases pk)
    (auto simp: IsComplex_def intro: value_at_elems_props.empty value_at_elems_props.object)

lemma grown_refl: "value_at ns a (length ns) \<Longrightarrow> grown ns ns a"
  unfolding grown_def
  by (auto intro: exI [of _ "count (ns ! a)"])

lemma take_nth: "take l xs = take l ys \<Longrightarrow> k < l \<Longrightarrow> xs ! k = ys ! k"
  by (metis nth_take)

lemma array_inv_step:
  assumes inv: "array_inv ns a prev"
    and n: "count n = 0" "nxt n = None"
    and g: "grown (link prev (length ns) (incr a (ns @ [n]))) ns5 (length ns)"
  shows "array_inv ns5 a (Some (length ns))"
    and "take a ns5 = take a ns"
    and "ns5 ! a = (ns ! a)\<lparr>count := count (ns ! a) + 1\<rparr>"
    and "length ns \<le> length ns5"
proof -
  let ?l = "length ns"
  let ?ns4 = "link prev ?l (incr a (ns @ [n]))"
  have a: "a < ?l" "IsArray (ns ! a)" using inv by (auto simp: array_inv_def)
  have len4: "length ?ns4 = Suc ?l" by (cases prev) (auto simp: link_def incr_def)
  have pb: "\<And>p. prev = Some p \<Longrightarrow> a < p \<and> p < ?l"
    using inv elems_bounds unfolding array_inv_def by fastforce
  have l4: "?ns4 ! ?l = n"
    using a pb by (cases prev) (auto simp: link_def incr_def nth_append)
  have a4: "?ns4 ! a = (ns ! a)\<lparr>count := count (ns ! a) + 1\<rparr>"
    using a pb by (cases prev) (auto simp: link_def incr_def nth_append)
  have k4: "\<And>k. k < ?l \<Longrightarrow> k \<noteq> a \<Longrightarrow> prev \<noteq> Some k \<Longrightarrow> ?ns4 ! k = ns ! k"
    using a pb by (cases prev) (auto simp: link_def incr_def nth_append)
  have p4: "\<And>p. prev = Some p \<Longrightarrow> ?ns4 ! p = (ns ! p)\<lparr>nxt := Some ?l\<rparr>"
    using a pb by (auto simp: link_def incr_def nth_append)
  have t: "take ?l ns5 = take ?l ?ns4" and v: "value_at ns5 ?l (length ns5)"
    and c: "\<exists>c. ns5 ! ?l = (?ns4 ! ?l)\<lparr>count := c\<rparr>" and le: "length ?ns4 \<le> length ns5"
    using g by (auto simp: grown_def)
  have k5: "\<And>k. k < ?l \<Longrightarrow> ns5 ! k = ?ns4 ! k" using t by (rule take_nth)
  show 5: "ns5 ! a = (ns ! a)\<lparr>count := count (ns ! a) + 1\<rparr>" using k5 a a4 by simp
  show "length ns \<le> length ns5" using le len4 by simp
  show "take a ns5 = take a ns"
  proof (rule nth_take_lemma)
    show "a \<le> length ns5" using a le len4 by simp
    show "a \<le> length ns" using a by simp
    fix i
    show "i < a \<longrightarrow> ns5 ! i = ns ! i" using k5 [of i] k4 [of i] a pb by (cases prev) auto
  qed
  have nl: "nxt (ns5 ! ?l) = None" using c l4 n by auto
  have e: "\<exists>ps. elems ns5 (Suc a # ps) (length ns5) \<and> last (Suc a # ps) = ?l
               \<and> Suc (count (ns ! a)) = Suc (length ps)"
  proof (cases prev)
    case None
    then have "?l = Suc a" "count (ns ! a) = 0" using inv by (auto simp: array_inv_def)
    then show ?thesis
      using v nl by (auto intro!: exI [of _ "[]"] value_at_elems_props.elems_last)
  next
    case (Some p)
    then obtain ps where ps: "elems ns (Suc a # ps) ?l" "last (Suc a # ps) = p"
      "count (ns ! a) = Suc (length ps)"
      using inv by (auto simp: array_inv_def)
    have "elems ns5 ((Suc a # ps) @ [?l]) (length ns5)"
    proof (rule elems_snoc [OF ps(1) _ _ v nl])
      show "\<forall>k. hd (Suc a # ps) \<le> k \<and> k < ?l \<and> k \<noteq> last (Suc a # ps) \<longrightarrow> ns5 ! k = ns ! k"
        using k5 k4 ps(2) Some by auto
      show "ns5 ! last (Suc a # ps) = (ns ! last (Suc a # ps))\<lparr>nxt := Some ?l\<rparr>"
        using k5 [of p] p4 [OF Some] pb [OF Some] ps(2) by simp
    qed
    then show ?thesis using ps(3) by (auto intro!: exI [of _ "ps @ [?l]"])
  qed
  show "array_inv ns5 a (Some ?l)"
    unfolding array_inv_def using a le len4 5 e by (auto simp: IsArray_def)
qed


lemma object_inv_step:
  assumes inv: "object_inv ns a pk pv"
    and kn: "IsKey kn" "nxt kn = None"
    and vn: "nxt vn = None"
    and g: "grown (link pv (Suc (length ns)) (incr a (link pk (length ns) (ns @ [kn]) @ [vn])))
              ns9 (Suc (length ns))"
  shows "object_inv ns9 a (Some (length ns)) (Some (Suc (length ns)))"
    and "take a ns9 = take a ns"
    and "ns9 ! a = (ns ! a)\<lparr>count := count (ns ! a) + 1\<rparr>"
    and "length ns \<le> length ns9"
proof -
  let ?l = "length ns"
  let ?ns8 = "link pv (Suc ?l) (incr a (link pk ?l (ns @ [kn]) @ [vn]))"
  have a: "a < ?l" "IsObject (ns ! a)" using inv by (auto simp: object_inv_def)
  have pb: "\<And>k. pk = Some k \<Longrightarrow> a < k \<and> Suc k < ?l \<and> pv = Some (Suc k)"
    using inv props_bounds unfolding object_inv_def by fastforce
  have pn: "pk = None \<Longrightarrow> pv = None" using inv by (auto simp: object_inv_def)
  have len8: "length ?ns8 = Suc (Suc ?l)"
    by (cases pk; cases pv) (auto simp: link_def incr_def)
  have l8: "?ns8 ! ?l = kn"
    using a pb pn by (cases pk) (auto simp: link_def incr_def nth_append)
  have v8: "?ns8 ! Suc ?l = vn"
    using a pb pn by (cases pk) (auto simp: link_def incr_def nth_append)
  have a8: "?ns8 ! a = (ns ! a)\<lparr>count := count (ns ! a) + 1\<rparr>"
    using a pb pn by (cases pk) (auto simp: link_def incr_def nth_append)
  have k8: "\<And>k. k < ?l \<Longrightarrow> k \<noteq> a \<Longrightarrow> pk \<noteq> Some k \<Longrightarrow> pv \<noteq> Some k \<Longrightarrow> ?ns8 ! k = ns ! k"
    using a pb pn by (cases pk) (auto simp: link_def incr_def nth_append)
  have pk8: "\<And>k. pk = Some k \<Longrightarrow> ?ns8 ! k = (ns ! k)\<lparr>nxt := Some ?l\<rparr>"
    using a pb by (auto simp: link_def incr_def nth_append)
  have pv8: "\<And>k. pk = Some k \<Longrightarrow> ?ns8 ! Suc k = (ns ! Suc k)\<lparr>nxt := Some (Suc ?l)\<rparr>"
    using a pb by (auto simp: link_def incr_def nth_append)
  have t: "take (Suc ?l) ns9 = take (Suc ?l) ?ns8" and v: "value_at ns9 (Suc ?l) (length ns9)"
    and c: "\<exists>c. ns9 ! Suc ?l = (?ns8 ! Suc ?l)\<lparr>count := c\<rparr>" and le: "length ?ns8 \<le> length ns9"
    using g by (auto simp: grown_def)
  have k9: "\<And>k. k < Suc ?l \<Longrightarrow> ns9 ! k = ?ns8 ! k" using t by (rule take_nth)
  show 9: "ns9 ! a = (ns ! a)\<lparr>count := count (ns ! a) + 1\<rparr>" using k9 a a8 by simp
  show "length ns \<le> length ns9" using le len8 by simp
  show "take a ns9 = take a ns"
  proof (rule nth_take_lemma)
    show "a \<le> length ns9" using a le len8 by simp
    show "a \<le> length ns" using a by simp
    fix i
    show "i < a \<longrightarrow> ns9 ! i = ns ! i"
      using k9 [of i] k8 [of i] a pb pn by (cases pk) auto
  qed
  have nl: "nxt (ns9 ! Suc ?l) = None" using c v8 vn by auto
  have kl: "IsKey (ns9 ! ?l)" "nxt (ns9 ! ?l) = None" using k9 [of ?l] l8 kn by auto
  have lb: "?l < length ns9" using le len8 by simp
  have e: "\<exists>ks. props ns9 (Suc a # ks) (length ns9) \<and> last (Suc a # ks) = ?l
               \<and> Suc (count (ns ! a)) = Suc (length ks)"
  proof (cases pk)
    case None
    then have "?l = Suc a" "count (ns ! a) = 0" using inv by (auto simp: object_inv_def)
    then show ?thesis
      using v nl kl lb by (auto intro!: exI [of _ "[]"] value_at_elems_props.props_last)
  next
    case (Some k)
    then obtain ks where ks: "props ns (Suc a # ks) ?l" "last (Suc a # ks) = k"
      "count (ns ! a) = Suc (length ks)"
      using inv by (auto simp: object_inv_def)
    have "props ns9 ((Suc a # ks) @ [?l]) (length ns9)"
    proof (rule props_snoc [OF ks(1) _ _ _ kl v nl])
      show "\<forall>m. hd (Suc a # ks) \<le> m \<and> m < ?l \<and> m \<noteq> last (Suc a # ks) \<and> m \<noteq> Suc (last (Suc a # ks))
              \<longrightarrow> ns9 ! m = ns ! m"
        using k9 k8 ks(2) Some pb [OF Some] by auto
      show "ns9 ! last (Suc a # ks) = (ns ! last (Suc a # ks))\<lparr>nxt := Some ?l\<rparr>"
        using k9 [of k] pk8 [OF Some] pb [OF Some] ks(2) by simp
      show "\<exists>c. ns9 ! Suc (last (Suc a # ks)) = (ns ! Suc (last (Suc a # ks)))\<lparr>nxt := Some (Suc ?l)\<rparr>"
        using k9 [of "Suc k"] pv8 [OF Some] pb [OF Some] ks(2) by simp
    qed
    then show ?thesis using ks(3) by (auto intro!: exI [of _ "ks @ [?l]"])
  qed
  show "object_inv ns9 a (Some ?l) (Some (Suc ?l))"
    unfolding object_inv_def using a le len8 9 e by (auto simp: IsObject_def)
qed

section \<open>The buffer of a valid parse\<close>

lemma pushNode_fields:
  "pushNode st = Inr (r, st') \<Longrightarrow>
   m_tokenCapacity st' = m_tokenCapacity st \<and> m_pos st' = m_pos st
   \<and> m_currentToken st' = m_currentToken st
   \<and> (if r then length (m_nodes st) < m_tokenCapacity st \<and> m_errorCode st' = m_errorCode st
              \<and> (\<exists>n. make_node (m_currentToken st) = Inr n \<and> m_nodes st' = m_nodes st @ [n])
       else \<not> length (m_nodes st) < m_tokenCapacity st \<and> m_errorCode st' = CAPACITY_EXCEEDED
              \<and> m_nodes st' = m_nodes st)"
  by (auto simp: pushNode_def appendToErrorLog_def split: sum.splits if_splits)

lemma expect_fields:
  "expect b msg st = Inr (r, st') \<Longrightarrow>
   r = b \<and> m_tokenCapacity st' = m_tokenCapacity st \<and> m_pos st' = m_pos st
   \<and> (if b then st' = st
       else m_errorCode st' \<in> {SYNTACTIC_ERRORS, INVALID_TOKENS, CAPACITY_EXCEEDED}
            \<and> length (m_nodes st) \<le> length (m_nodes st')
            \<and> (\<not> length (m_nodes st) < m_tokenCapacity st \<longrightarrow>
                  m_nodes st' = m_nodes st \<and> m_errorCode st' = CAPACITY_EXCEEDED))"
  by (auto simp: expect_def appendToErrorLog_def dest!: pushNode_fields
      split: sum.splits if_splits prod.splits)

lemma increment_count_fields:
  "increment_count c st = Inr st' \<Longrightarrow>
   m_tokenCapacity st' = m_tokenCapacity st \<and> m_pos st' = m_pos st
   \<and> m_currentToken st' = m_currentToken st \<and> m_errorCode st' = m_errorCode st
   \<and> length (m_nodes st') = length (m_nodes st)"
  by (auto simp: increment_count_def split: option.splits if_splits)

lemma link_previous_fields:
  "link_previous a b st = Inr st' \<Longrightarrow>
   m_tokenCapacity st' = m_tokenCapacity st \<and> m_pos st' = m_pos st
   \<and> m_currentToken st' = m_currentToken st \<and> m_errorCode st' = m_errorCode st
   \<and> length (m_nodes st') = length (m_nodes st)"
  by (auto simp: link_previous_def split: option.splits if_splits)

lemma capacity_constant_aux:
  "(\<forall>st r st'. parseArray f s st = Inr (r, st') \<longrightarrow> m_tokenCapacity st = c \<longrightarrow> m_tokenCapacity st' = c)
 \<and> (\<forall>cn p st r st'. arrayLoop f s cn p st = Inr (r, st') \<longrightarrow> m_tokenCapacity st = c \<longrightarrow> m_tokenCapacity st' = c)
 \<and> (\<forall>st r st'. parseObject f s st = Inr (r, st') \<longrightarrow> m_tokenCapacity st = c \<longrightarrow> m_tokenCapacity st' = c)
 \<and> (\<forall>cn k v st r st'. objectLoop f s cn k v st = Inr (r, st') \<longrightarrow> m_tokenCapacity st = c \<longrightarrow> m_tokenCapacity st' = c)"
  by (rule builder_invariant [where P = "\<lambda>x. m_tokenCapacity x = c"])
    (auto dest: advance_fields pushNode_fields expect_fields increment_count_fields
      link_previous_fields)

lemma capacity_constant:
  "parseArray f s st = Inr (r, st') \<Longrightarrow> m_tokenCapacity st' = m_tokenCapacity st"
  "arrayLoop f s c p st = Inr (r, st') \<Longrightarrow> m_tokenCapacity st' = m_tokenCapacity st"
  "parseObject f s st = Inr (r, st') \<Longrightarrow> m_tokenCapacity st' = m_tokenCapacity st"
  "objectLoop f s c k v st = Inr (r, st') \<Longrightarrow> m_tokenCapacity st' = m_tokenCapacity st"
  using capacity_constant_aux [of f s "m_tokenCapacity st"] by blast+

lemma Parse_loop_capacity:
  "Parse_loop f s st = Inr (r, st') \<Longrightarrow> m_tokenCapacity st' = m_tokenCapacity st"
  by (rule Parse_loop_invariant [where P = "\<lambda>x. m_tokenCapacity x = m_tokenCapacity st"
        and s = s and f = f and st = st and r = r])
    (auto dest: advance_fields pushNode_fields expect_fields increment_count_fields
      link_previous_fields)

lemma nodes_grow_aux:
  "(\<forall>st r st'. parseArray f s st = Inr (r, st') \<longrightarrow> n \<le> length (m_nodes st) \<longrightarrow> n \<le> length (m_nodes st'))
 \<and> (\<forall>cn p st r st'. arrayLoop f s cn p st = Inr (r, st') \<longrightarrow> n \<le> length (m_nodes st) \<longrightarrow> n \<le> length (m_nodes st'))
 \<and> (\<forall>st r st'. parseObject f s st = Inr (r, st') \<longrightarrow> n \<le> length (m_nodes st) \<longrightarrow> n \<le> length (m_nodes st'))
 \<and> (\<forall>cn k v st r st'. objectLoop f s cn k v st = Inr (r, st') \<longrightarrow> n \<le> length (m_nodes st) \<longrightarrow> n \<le> length (m_nodes st'))"
  by (rule builder_invariant [where P = "\<lambda>x. n \<le> length (m_nodes x)"])
    (auto dest!: advance_fields pushNode_fields expect_fields increment_count_fields
      link_previous_fields split: if_splits)

lemma nodes_grow:
  "parseArray f s st = Inr (r, st') \<Longrightarrow> length (m_nodes st) \<le> length (m_nodes st')"
  "arrayLoop f s c p st = Inr (r, st') \<Longrightarrow> length (m_nodes st) \<le> length (m_nodes st')"
  "parseObject f s st = Inr (r, st') \<Longrightarrow> length (m_nodes st) \<le> length (m_nodes st')"
  "objectLoop f s c k v st = Inr (r, st') \<Longrightarrow> length (m_nodes st) \<le> length (m_nodes st')"
  using nodes_grow_aux [of f s "length (m_nodes st)"] by blast+

lemma Parse_loop_grow:
  "Parse_loop f s st = Inr (r, st') \<Longrightarrow> length (m_nodes st) \<le> length (m_nodes st')"
  by (rule Parse_loop_invariant [where P = "\<lambda>x. length (m_nodes st) \<le> length (m_nodes x)"
        and s = s and f = f and st = st and r = r])
    (auto dest!: advance_fields pushNode_fields expect_fields increment_count_fields
      link_previous_fields split: if_splits)

lemma Parse_loop_not_valid:
  "Parse_loop f s st = Inr (r, st') \<Longrightarrow> m_errorCode st \<noteq> VALID_JSON \<Longrightarrow>
   m_errorCode st' \<noteq> VALID_JSON"
  by (rule Parse_loop_invariant [where P = "\<lambda>x. m_errorCode x \<noteq> VALID_JSON"
        and s = s and f = f and st = st and r = r])
    (auto dest!: advance_fields pushNode_fields expect_fields increment_count_fields
      link_previous_fields split: if_splits)

lemma logInvalidTokenPosition_fields:
  "logInvalidTokenPosition s st = Inr st' \<Longrightarrow>
   m_errorCode st' = m_errorCode st \<and> m_nodes st' = m_nodes st
   \<and> m_tokenCapacity st' = m_tokenCapacity st"
  by (auto simp: logInvalidTokenPosition_def Let_def appendToErrorLog_def
      split: sum.splits if_splits)

definition fresh :: "nat \<Rightarrow> JsonParser \<Rightarrow> JsonParser" where
  "fresh new_capacity st0 =
     st0\<lparr>m_pos := 0, m_errorCode := NOT_DONE, m_nodes := [],
         m_tokenCapacity := new_capacity, m_currentLine := 1, m_errorLog := []\<rparr>"

lemma Parse_valid:
  assumes "Parse s (Some c) st0 = Inr st" "m_errorCode st = VALID_JSON"
  shows "\<exists>stL st1 st2.
           Parse_loop (parse_fuel s) s (skipWhitespace_lines s (fresh c st0)) = Inr (True, stL)
         \<and> advance s stL = Inr st1
         \<and> pushNode st1 = Inr (True, st2)
         \<and> st = st2\<lparr>m_errorCode := VALID_JSON\<rparr>"
proof -
  let ?st = "skipWhitespace_lines s (fresh c st0)"
  have nv: "m_errorCode ?st \<noteq> VALID_JSON"
    by (simp add: skipWhitespace_lines_def fresh_def Let_def)
  obtain r stL where L: "Parse_loop (parse_fuel s) s ?st = Inr (r, stL)"
    using assms(1) by (auto simp: Parse_def fresh_def IsValid_def split: sum.splits)
  have nvL: "m_errorCode stL \<noteq> VALID_JSON" using Parse_loop_not_valid [OF L nv] .
  show ?thesis
  proof (cases r)
    case False
    then have "logInvalidTokenPosition s stL = Inr st"
      using assms(1) L by (simp add: Parse_def fresh_def IsValid_def)
    then show ?thesis using nvL assms(2) by (auto dest: logInvalidTokenPosition_fields)
  next
    case True
    then obtain r2 st2 where t: "run (advance s stL) pushNode = Inr (r2, st2)"
      using assms(1) L by (auto simp: Parse_def fresh_def IsValid_def split: sum.splits)
    then obtain st1 where a: "advance s stL = Inr st1" and p: "pushNode st1 = Inr (r2, st2)"
      by (auto simp: run_eq_Inr)
    show ?thesis
    proof (cases r2)
      case False
      then have "logInvalidTokenPosition s st2 = Inr st"
        using assms(1) L True t by (simp add: Parse_def fresh_def IsValid_def)
      then show ?thesis
        using pushNode_fields [OF p] False assms(2) by (auto dest: logInvalidTokenPosition_fields)
    next
      case r2: True
      then have "st = st2\<lparr>m_errorCode := VALID_JSON\<rparr>"
        using assms(1) L True t by (simp add: Parse_def fresh_def IsValid_def)
      then show ?thesis using L True a p r2 by auto
    qed
  qed
qed


lemma increment_count_Some:
  "increment_count (Some a) st = Inr st' \<Longrightarrow>
   a < length (m_nodes st) \<and> m_nodes st' = incr a (m_nodes st)"
  by (auto simp: increment_count_def incr_def split: if_splits)

lemma link_previous_Some:
  "link_previous prev (Some l) st = Inr st' \<Longrightarrow> m_nodes st' = link prev l (m_nodes st)"
  by (auto simp: link_previous_def link_def split: option.splits if_splits)

lemma getLastNode_Some: "m_nodes st \<noteq> [] \<Longrightarrow> getLastNode st = Some (length (m_nodes st) - 1)"
  by (simp add: getLastNode_def)

lemma make_node_fields:
  "make_node tok = Inr n \<Longrightarrow>
   count n = 0 \<and> nxt n = None \<and> node_type_of (tok_type tok) = Some (type n)"
  by (auto simp: make_node_def split: option.splits)

lemma length_link [simp]: "length (link prev l ns) = length ns"
  by (cases prev) (auto simp: link_def)

lemma length_incr [simp]: "length (incr a ns) = length ns"
  by (simp add: incr_def)

lemma incr_Nil [simp]: "(incr a ns = []) = (ns = [])"
  by (simp add: incr_def)

lemma link_Nil [simp]: "(link prev l ns = []) = (ns = [])"
  by (cases prev) (auto simp: link_def)

lemma nth_link_last:
  "(\<And>p. prev = Some p \<Longrightarrow> p < length ns) \<Longrightarrow> link prev l (ns @ [n]) ! length ns = n"
  by (cases prev) (auto simp: link_def)

lemma incr_append: "a < length ns \<Longrightarrow> incr a (ns @ [n]) = incr a ns @ [n]"
  by (simp add: incr_def list_update_append nth_append)

lemma link_append:
  "(\<And>p. prev = Some p \<Longrightarrow> p < length ns) \<Longrightarrow> link prev l (ns @ [n]) = link prev l ns @ [n]"
  by (cases prev) (auto simp: link_def list_update_append nth_append)

lemma grown_compose:
  assumes "take a ns5 = take a ns" "ns5 ! a = (ns ! a)\<lparr>count := x\<rparr>" "length ns \<le> length ns5"
    "grown ns5 ns' a"
  shows "grown ns ns' a"
  using assms by (auto simp: grown_def)

lemma value_node_type:
  "value_token ty \<Longrightarrow> node_type_of ty = Some t \<Longrightarrow>
   (ty = JSON_ARRAY_BEGIN \<longrightarrow> t = JSON_ARRAY) \<and> (ty = JSON_OBJECT_BEGIN \<longrightarrow> t = JSON_OBJECT)
   \<and> (ty \<noteq> JSON_ARRAY_BEGIN \<longrightarrow> ty \<noteq> JSON_OBJECT_BEGIN \<longrightarrow> scalar_type t)"
  by (auto simp: value_token_def node_type_of_def scalar_type_def)

definition structure_at :: "nat \<Rightarrow> string \<Rightarrow> bool" where
  "structure_at f s =
     ((\<forall>st st'. parseArray f s st = Inr (True, st') \<longrightarrow> m_nodes st \<noteq> [] \<longrightarrow>
          IsArray (last (m_nodes st)) \<longrightarrow> count (last (m_nodes st)) = 0 \<longrightarrow>
          grown (m_nodes st) (m_nodes st') (length (m_nodes st) - 1))
    \<and> (\<forall>a prev st st'. arrayLoop f s (Some a) prev st = Inr (True, st') \<longrightarrow>
          array_inv (m_nodes st) a prev \<longrightarrow> grown (m_nodes st) (m_nodes st') a)
    \<and> (\<forall>st st'. parseObject f s st = Inr (True, st') \<longrightarrow> m_nodes st \<noteq> [] \<longrightarrow>
          IsObject (last (m_nodes st)) \<longrightarrow> count (last (m_nodes st)) = 0 \<longrightarrow>
          grown (m_nodes st) (m_nodes st') (length (m_nodes st) - 1))
    \<and> (\<forall>a pk pv st st'. objectLoop f s (Some a) pk pv st = Inr (True, st') \<longrightarrow>
          object_inv (m_nodes st) a pk pv \<longrightarrow> grown (m_nodes st) (m_nodes st') a))"

lemma nested_grown:
  assumes ih: "structure_at f s"
    and p: "parse_nested f s ty st = Inr (True, st')"
    and vt: "value_token ty"
    and ne: "m_nodes st \<noteq> []"
    and n: "node_type_of ty = Some (type (last (m_nodes st)))" "count (last (m_nodes st)) = 0"
  shows "grown (m_nodes st) (m_nodes st') (length (m_nodes st) - 1)"
proof -
  note t = value_node_type [OF vt n(1)]
  consider (arr) "ty = JSON_ARRAY_BEGIN" | (obj) "ty = JSON_OBJECT_BEGIN"
    | (prim) "ty \<noteq> JSON_ARRAY_BEGIN" "ty \<noteq> JSON_OBJECT_BEGIN" by blast
  then show ?thesis
  proof cases
    case arr
    then show ?thesis
      using ih p t ne n(2) by (auto simp: structure_at_def parse_nested_def IsArray_def)
  next
    case obj
    then show ?thesis
      using ih p t ne n(2) by (auto simp: structure_at_def parse_nested_def IsObject_def)
  next
    case prim
    then have e: "st' = st" using p by (simp add: parse_nested_def)
    have l: "last (m_nodes st) = m_nodes st ! (length (m_nodes st) - 1)"
      using ne by (simp add: last_conv_nth)
    have "value_at (m_nodes st) (length (m_nodes st) - 1) (Suc (length (m_nodes st) - 1))"
      using prim t ne l by (intro value_at_elems_props.scalar) auto
    then show ?thesis using e ne by (auto intro: grown_refl)
  qed
qed


lemma structure_array_loop:
  assumes ih: "structure_at f s"
    and run: "arrayLoop (Suc f) s (Some a) prev st = Inr (True, st')"
    and inv: "array_inv (m_nodes st) a prev"
  shows "grown (m_nodes st) (m_nodes st') a"
proof (cases "m_pos st < length s")
  case False
  then have "st' = st" using run by (simp add: arrayLoop_True_iff)
  then show ?thesis using array_inv_value [OF inv] by (auto intro: grown_refl)
next
  case True
  let ?ns = "m_nodes st"
  let ?l = "length ?ns"
  let ?ty = "tok_type (m_currentToken st)"
  from run True obtain st2 st3 st4 st5 st6 where
    vt: "value_token ?ty"
    and push: "pushNode st = Inr (True, st2)"
    and inc: "increment_count (Some a) st2 = Inr st3"
    and lnk: "link_previous prev (getLastNode st3) st3 = Inr st4"
    and nest: "parse_nested f s ?ty st4 = Inr (True, st5)"
    and adv: "advance s st5 = Inr st6"
    and rest: "if tok_type (m_currentToken st6) = JSON_ARRAY_END then st' = st6
               else tok_type (m_currentToken st6) = JSON_COMMA
                 \<and> (\<exists>st7. advance s st6 = Inr st7
                       \<and> arrayLoop f s (Some a) (getLastNode st3) st7 = Inr (True, st'))"
    unfolding arrayLoop_True_iff by auto
  obtain n where n: "make_node (m_currentToken st) = Inr n" and ns2: "m_nodes st2 = ?ns @ [n]"
    using pushNode_fields [OF push] by auto
  have nf: "count n = 0" "nxt n = None" "node_type_of ?ty = Some (type n)"
    using make_node_fields [OF n] by auto
  have a: "a < ?l" using inv by (simp add: array_inv_def)
  have pb: "\<And>p. prev = Some p \<Longrightarrow> p < ?l"
    using inv elems_bounds unfolding array_inv_def by fastforce
  have ns3: "m_nodes st3 = incr a (?ns @ [n])" using increment_count_Some [OF inc] ns2 by simp
  have last3: "getLastNode st3 = Some ?l" using ns3 by (simp add: getLastNode_def)
  have ns4: "m_nodes st4 = link prev ?l (incr a (?ns @ [n]))"
    using link_previous_Some [OF lnk [unfolded last3]] ns3 by simp
  have ns4': "m_nodes st4 = link prev ?l (incr a ?ns) @ [n]"
    unfolding ns4 using a pb by (simp add: incr_append link_append)
  have g: "grown (m_nodes st4) (m_nodes st5) (length (m_nodes st4) - 1)"
    using nested_grown [OF ih nest vt] nf ns4' by simp
  have g': "grown (link prev ?l (incr a (?ns @ [n]))) (m_nodes st5) ?l"
    using g unfolding ns4 by simp
  note stp = array_inv_step [OF inv nf(1) nf(2) g']
  have ns6: "m_nodes st6 = m_nodes st5" using advance_fields [OF adv] by simp
  show ?thesis
  proof (cases "tok_type (m_currentToken st6) = JSON_ARRAY_END")
    case True
    then have "st' = st6" using rest by simp
    then show ?thesis
      using grown_compose [OF stp(2) stp(3) stp(4) grown_refl [OF array_inv_value [OF stp(1)]]] ns6
      by simp
  next
    case False
    then obtain st7 where adv7: "advance s st6 = Inr st7"
      and loop: "arrayLoop f s (Some a) (Some ?l) st7 = Inr (True, st')"
      using rest last3 by auto
    have ns7: "m_nodes st7 = m_nodes st5" using advance_fields [OF adv7] ns6 by simp
    have ihAL: "\<And>a prev st st'. arrayLoop f s (Some a) prev st = Inr (True, st') \<Longrightarrow>
        array_inv (m_nodes st) a prev \<Longrightarrow> grown (m_nodes st) (m_nodes st') a"
      using ih unfolding structure_at_def by blast
    have "grown (m_nodes st7) (m_nodes st') a"
      using ihAL [OF loop] stp(1) unfolding ns7 by simp
    then show ?thesis
      using grown_compose [OF stp(2) stp(3) stp(4)] ns7 by simp
  qed
qed

lemma structure_object_loop:
  assumes ih: "structure_at f s"
    and run: "objectLoop (Suc f) s (Some a) pk pv st = Inr (True, st')"
    and inv: "object_inv (m_nodes st) a pk pv"
  shows "grown (m_nodes st) (m_nodes st') a"
proof (cases "m_pos st < length s")
  case False
  then have "st' = st" using run by (simp add: objectLoop_True_iff)
  then show ?thesis using object_inv_value [OF inv] by (auto intro: grown_refl)
next
  case True
  let ?ns = "m_nodes st"
  let ?l = "length ?ns"
  from run True obtain st2 st3 st4 st5 st6 st7 st8 st9 st10 where
    push: "pushNode (st\<lparr>m_currentToken := (m_currentToken st)\<lparr>tok_type := JSON_KEY_TOK\<rparr>\<rparr>)
             = Inr (True, st2)"
    and lnk: "link_previous pk (getLastNode st2) st2 = Inr st3"
    and adv4: "advance s st3 = Inr st4"
    and adv5: "advance s st4 = Inr st5"
    and vt: "value_token (tok_type (m_currentToken st5))"
    and push6: "pushNode st5 = Inr (True, st6)"
    and inc: "increment_count (Some a) st6 = Inr st7"
    and lnk8: "link_previous pv (getLastNode st7) st7 = Inr st8"
    and nest: "parse_nested f s (tok_type (m_currentToken st5)) st8 = Inr (True, st9)"
    and adv10: "advance s st9 = Inr st10"
    and rest: "if tok_type (m_currentToken st10) = JSON_OBJECT_END then st' = st10
               else tok_type (m_currentToken st10) = JSON_COMMA
                 \<and> (\<exists>st11. advance s st10 = Inr st11
                       \<and> objectLoop f s (Some a) (getLastNode st2) (getLastNode st7) st11
                           = Inr (True, st'))"
    unfolding objectLoop_True_iff by auto
  obtain kn where kn: "make_node ((m_currentToken st)\<lparr>tok_type := JSON_KEY_TOK\<rparr>) = Inr kn"
    and ns2: "m_nodes st2 = ?ns @ [kn]"
    using pushNode_fields [OF push] by auto
  have kf: "count kn = 0" "nxt kn = None" "node_type_of JSON_KEY_TOK = Some (type kn)"
    using make_node_fields [OF kn] by auto
  have ik: "IsKey kn" using kf by (simp add: IsKey_def node_type_of_def)
  have a: "a < ?l" using inv by (simp add: object_inv_def)
  have pb: "\<And>k. pk = Some k \<Longrightarrow> k < ?l \<and> Suc k < ?l \<and> pv = Some (Suc k)"
    using inv props_bounds unfolding object_inv_def by fastforce
  have pn: "pk = None \<Longrightarrow> pv = None" using inv by (auto simp: object_inv_def)
  have pvb: "\<And>v. pv = Some v \<Longrightarrow> v < Suc ?l" using pb pn by (cases pk) auto
  have last2: "getLastNode st2 = Some ?l" using ns2 by (simp add: getLastNode_def)
  have ns3: "m_nodes st3 = link pk ?l (?ns @ [kn])"
    using link_previous_Some [OF lnk [unfolded last2]] ns2 by simp
  have ns5: "m_nodes st5 = link pk ?l (?ns @ [kn])"
    using advance_fields [OF adv4] advance_fields [OF adv5] ns3 by simp
  obtain vn where vn: "make_node (m_currentToken st5) = Inr vn"
    and ns6: "m_nodes st6 = link pk ?l (?ns @ [kn]) @ [vn]"
    using pushNode_fields [OF push6] ns5 by auto
  have vf: "count vn = 0" "nxt vn = None"
    "node_type_of (tok_type (m_currentToken st5)) = Some (type vn)"
    using make_node_fields [OF vn] by auto
  have ns7: "m_nodes st7 = incr a (link pk ?l (?ns @ [kn]) @ [vn])"
    using increment_count_Some [OF inc] ns6 by simp
  have last7: "getLastNode st7 = Some (Suc ?l)" using ns7 by (simp add: getLastNode_def)
  have ns8: "m_nodes st8 = link pv (Suc ?l) (incr a (link pk ?l (?ns @ [kn]) @ [vn]))"
    using link_previous_Some [OF lnk8 [unfolded last7]] ns7 by simp
  have ns8': "m_nodes st8 = link pv (Suc ?l) (incr a (link pk ?l (?ns @ [kn]))) @ [vn]"
    unfolding ns8 using a pvb by (simp add: incr_append link_append)
  have g: "grown (m_nodes st8) (m_nodes st9) (length (m_nodes st8) - 1)"
    using nested_grown [OF ih nest vt] vf ns8' by simp
  have g': "grown (link pv (Suc ?l) (incr a (link pk ?l (?ns @ [kn]) @ [vn]))) (m_nodes st9)
              (Suc ?l)"
    using g unfolding ns8 by simp
  note stp = object_inv_step [OF inv ik kf(2) vf(2) g']
  have ns10: "m_nodes st10 = m_nodes st9" using advance_fields [OF adv10] by simp
  show ?thesis
  proof (cases "tok_type (m_currentToken st10) = JSON_OBJECT_END")
    case True
    then have "st' = st10" using rest by simp
    then show ?thesis
      using grown_compose [OF stp(2) stp(3) stp(4) grown_refl [OF object_inv_value [OF stp(1)]]]
        ns10
      by simp
  next
    case False
    then obtain st11 where adv11: "advance s st10 = Inr st11"
      and loop: "objectLoop f s (Some a) (Some ?l) (Some (Suc ?l)) st11 = Inr (True, st')"
      using rest last2 last7 by auto
    have ns11: "m_nodes st11 = m_nodes st9" using advance_fields [OF adv11] ns10 by simp
    have ihOL: "\<And>a pk pv st st'. objectLoop f s (Some a) pk pv st = Inr (True, st') \<Longrightarrow>
        object_inv (m_nodes st) a pk pv \<Longrightarrow> grown (m_nodes st) (m_nodes st') a"
      using ih unfolding structure_at_def by blast
    have "grown (m_nodes st11) (m_nodes st') a"
      using ihOL [OF loop] stp(1) unfolding ns11 by simp
    then show ?thesis
      using grown_compose [OF stp(2) stp(3) stp(4)] ns11 by simp
  qed
qed

lemma structure_all: "structure_at f s"
proof (induction f)
  case 0
  show ?case
    by (simp add: structure_at_def parseArray.simps arrayLoop.simps parseObject.simps
        objectLoop.simps)
next
  case (Suc f)
  have ihAL: "\<And>a prev st st'. arrayLoop f s (Some a) prev st = Inr (True, st') \<Longrightarrow>
      array_inv (m_nodes st) a prev \<Longrightarrow> grown (m_nodes st) (m_nodes st') a"
    using Suc unfolding structure_at_def by blast
  have ihOL: "\<And>a pk pv st st'. objectLoop f s (Some a) pk pv st = Inr (True, st') \<Longrightarrow>
      object_inv (m_nodes st) a pk pv \<Longrightarrow> grown (m_nodes st) (m_nodes st') a"
    using Suc unfolding structure_at_def by blast
  have A: "grown (m_nodes st) (m_nodes st') (length (m_nodes st) - 1)"
    if run: "parseArray (Suc f) s st = Inr (True, st')" and ne: "m_nodes st \<noteq> []"
      and ia: "IsArray (last (m_nodes st))" and c: "count (last (m_nodes st)) = 0"
    for st st'
  proof -
    let ?a = "length (m_nodes st) - 1"
    from run obtain st1 where adv: "advance s st = Inr st1"
      and rest: "if tok_type (m_currentToken st1) = JSON_ARRAY_END then st' = st1
                 else arrayLoop f s (getLastNode st1) None st1 = Inr (True, st')"
      unfolding parseArray_True_iff by auto
    have ns1: "m_nodes st1 = m_nodes st" using advance_fields [OF adv] by simp
    have l: "last (m_nodes st) = m_nodes st ! ?a" using ne by (simp add: last_conv_nth)
    have inv: "array_inv (m_nodes st) ?a None"
      using ne ia c l by (auto simp: array_inv_def)
    show ?thesis
    proof (cases "tok_type (m_currentToken st1) = JSON_ARRAY_END")
      case True
      then show ?thesis
        using rest ns1 array_inv_value [OF inv] by (auto intro: grown_refl)
    next
      case False
      then have "arrayLoop f s (Some ?a) None st1 = Inr (True, st')"
        using rest ns1 ne by (simp add: getLastNode_def)
      from ihAL [OF this] inv show ?thesis unfolding ns1 by simp
    qed
  qed
  have O: "grown (m_nodes st) (m_nodes st') (length (m_nodes st) - 1)"
    if run: "parseObject (Suc f) s st = Inr (True, st')" and ne: "m_nodes st \<noteq> []"
      and ia: "IsObject (last (m_nodes st))" and c: "count (last (m_nodes st)) = 0"
    for st st'
  proof -
    let ?a = "length (m_nodes st) - 1"
    from run obtain st1 where adv: "advance s st = Inr st1"
      and rest: "if tok_type (m_currentToken st1) = JSON_OBJECT_END then st' = st1
                 else objectLoop f s (getLastNode st1) None None st1 = Inr (True, st')"
      unfolding parseObject_True_iff by auto
    have ns1: "m_nodes st1 = m_nodes st" using advance_fields [OF adv] by simp
    have l: "last (m_nodes st) = m_nodes st ! ?a" using ne by (simp add: last_conv_nth)
    have inv: "object_inv (m_nodes st) ?a None None"
      using ne ia c l by (auto simp: object_inv_def)
    show ?thesis
    proof (cases "tok_type (m_currentToken st1) = JSON_OBJECT_END")
      case True
      then show ?thesis
        using rest ns1 object_inv_value [OF inv] by (auto intro: grown_refl)
    next
      case False
      then have "objectLoop f s (Some ?a) None None st1 = Inr (True, st')"
        using rest ns1 ne by (simp add: getLastNode_def)
      from ihOL [OF this] inv show ?thesis unfolding ns1 by simp
    qed
  qed
  show ?case
    unfolding structure_at_def
    using A O structure_array_loop [OF Suc] structure_object_loop [OF Suc] by blast
qed


lemma top_level_bound: "top_level ns i \<Longrightarrow> i \<le> length ns"
  by (induction rule: top_level.induct) (auto dest: value_at_bounds)

lemma top_level_frame:
  "top_level ns i \<Longrightarrow> take i ns' = take i ns \<Longrightarrow> i \<le> length ns' \<Longrightarrow> top_level ns' i"
proof (induction arbitrary: rule: top_level.induct)
  case start
  show ?case by (rule top_level.start)
next
  case (root i j)
  have b: "i < j" "j \<le> length ns" using value_at_bounds [OF root.hyps(3)] by auto
  have eq: "\<And>k. k < j \<Longrightarrow> ns' ! k = ns ! k" using root.prems(1) by (rule take_nth)
  have "take i (take j ns') = take i (take j ns)" using root.prems(1) by simp
  then have t: "take i ns' = take i ns" using b by (simp add: min_def)
  have 1: "top_level ns' i" using root.IH [OF t] b root.prems(2) by simp
  have "same_root ns ns' i j"
    using eq b root.prems(2) by (auto simp: same_root_def same_inside_def)
  then have 2: "value_at ns' i j" using root.hyps(3) by (rule value_at_frame [rotated])
  have 3: "IsComplex (ns' ! i)" using eq [of i] b root.hyps(2) by simp
  show ?case using 1 3 2 by (rule top_level.root)
qed

lemma Parse_loop_end: "Parse_loop f s st = Inr (True, st') \<Longrightarrow> \<not> m_pos st' < length s"
proof (induction f arbitrary: st)
  case 0
  then show ?case by (simp add: Parse_loop.simps)
next
  case (Suc f)
  then show ?case by (auto simp: Parse_loop_True_iff split: if_splits)
qed

lemma Parse_loop_structure:
  "Parse_loop f s st = Inr (True, st') \<Longrightarrow>
   length (m_nodes st') < m_tokenCapacity st' \<Longrightarrow>
   top_level (m_nodes st) (length (m_nodes st)) \<Longrightarrow>
   top_level (m_nodes st') (length (m_nodes st'))"
proof (induction f arbitrary: st)
  case 0
  then show ?case by (simp add: Parse_loop.simps)
next
  case (Suc f)
  show ?case
  proof (cases "m_pos st < length s")
    case False
    then show ?thesis using Suc.prems by (simp add: Parse_loop_True_iff)
  next
    case True
    let ?ns = "m_nodes st"
    let ?l = "length ?ns"
    from Suc.prems(1) True obtain st1 pushed st2 st3 where
      adv: "advance s st = Inr st1"
      and ty: "tok_type (m_currentToken st1) = JSON_ARRAY_BEGIN
               \<or> tok_type (m_currentToken st1) = JSON_OBJECT_BEGIN"
      and push: "pushNode st1 = Inr (pushed, st2)"
      and nest: "parse_nested f s (tok_type (m_currentToken st1)) st2 = Inr (True, st3)"
      and loop: "Parse_loop f s st3 = Inr (True, st')"
      unfolding Parse_loop_True_iff by auto
    have ns1: "m_nodes st1 = ?ns" using advance_fields [OF adv] by simp
    have cap: "m_tokenCapacity st' = m_tokenCapacity st2"
      using Parse_loop_capacity [OF loop] nest capacity_constant(1,3) [of f s st2 True st3]
      by (auto simp: parse_nested_def split: if_splits)
    have grow: "length (m_nodes st2) \<le> length (m_nodes st')"
      using Parse_loop_grow [OF loop] nest nodes_grow(1,3) [of f s st2 True st3]
      by (auto simp: parse_nested_def split: if_splits)
    have pushed: "pushed"
      using pushNode_fields [OF push] cap grow Suc.prems(2) by (auto split: if_splits)
    then obtain n where n: "make_node (m_currentToken st1) = Inr n"
      and ns2: "m_nodes st2 = ?ns @ [n]"
      using pushNode_fields [OF push] ns1 by auto
    have nf: "count n = 0" "nxt n = None"
      "node_type_of (tok_type (m_currentToken st1)) = Some (type n)"
      using make_node_fields [OF n] by auto
    have vt: "value_token (tok_type (m_currentToken st1))"
      using ty by (auto simp: value_token_def)
    have g: "grown (m_nodes st2) (m_nodes st3) (length (m_nodes st2) - 1)"
      using nested_grown [OF structure_all nest vt] nf ns2 by simp
    then have g': "take ?l (m_nodes st3) = take ?l (?ns @ [n])"
      "value_at (m_nodes st3) ?l (length (m_nodes st3))"
      "\<exists>c. m_nodes st3 ! ?l = n\<lparr>count := c\<rparr>" "Suc ?l \<le> length (m_nodes st3)"
      unfolding ns2 by (auto simp: grown_def)
    have 1: "top_level (m_nodes st3) ?l"
      using top_level_frame [OF Suc.prems(3), of "m_nodes st3"] g'(1,4) by simp
    have 2: "IsComplex (m_nodes st3 ! ?l)"
      using g'(3) nf(3) ty by (auto simp: IsComplex_def IsArray_def IsObject_def node_type_of_def)
    have "top_level (m_nodes st3) (length (m_nodes st3))"
      using 1 2 g'(2) by (rule top_level.root)
    then show ?thesis using Suc.IH [OF loop Suc.prems(2)] by simp
  qed
qed


lemma advance_eof:
  "advance s st = Inr st1 \<Longrightarrow> \<not> m_pos st < length s \<Longrightarrow>
   tok_type (m_currentToken st1) = JSON_EOF_TOK"
  by (auto simp: advance_def getNextToken_def Let_def split: sum.splits if_splits)

lemma sub_values:
  "(value_at ns i j \<longrightarrow> (\<forall>m. i \<le> m \<and> m < j \<and> IsComplex (ns ! m) \<longrightarrow> (\<exists>j'. value_at ns m j')))
 \<and> (elems ns ps j \<longrightarrow> (\<forall>m. hd ps \<le> m \<and> m < j \<and> IsComplex (ns ! m) \<longrightarrow> (\<exists>j'. value_at ns m j')))
 \<and> (props ns ks j \<longrightarrow> (\<forall>m. hd ks \<le> m \<and> m < j \<and> IsComplex (ns ! m) \<longrightarrow> (\<exists>j'. value_at ns m j')))"
proof (induct rule: value_at_elems_props.induct)
  case (scalar i)
  then show ?case
    by (auto simp: IsComplex_def IsArray_def IsObject_def scalar_type_def less_Suc_eq)
next
  case (empty i)
  then show ?case
    by (auto simp: less_Suc_eq intro: value_at_elems_props.empty)
next
  case (array i ps j)
  have v: "value_at ns i j"
    by (rule value_at_elems_props.array) fact+
  have e: "\<forall>m. hd (Suc i # ps) \<le> m \<and> m < j \<and> IsComplex (ns ! m) \<longrightarrow> (\<exists>j'. value_at ns m j')"
    by fact
  show ?case
  proof (intro allI impI)
    fix m assume m: "i \<le> m \<and> m < j \<and> IsComplex (ns ! m)"
    show "\<exists>j'. value_at ns m j'"
    proof (cases "m = i")
      case True
      then show ?thesis using v by blast
    next
      case False
      then show ?thesis using e m by auto
    qed
  qed
next
  case (object i ks j)
  have v: "value_at ns i j"
    by (rule value_at_elems_props.object) fact+
  have e: "\<forall>m. hd (Suc i # ks) \<le> m \<and> m < j \<and> IsComplex (ns ! m) \<longrightarrow> (\<exists>j'. value_at ns m j')"
    by fact
  show ?case
  proof (intro allI impI)
    fix m assume m: "i \<le> m \<and> m < j \<and> IsComplex (ns ! m)"
    show "\<exists>j'. value_at ns m j'"
    proof (cases "m = i")
      case True
      then show ?thesis using v by blast
    next
      case False
      then show ?thesis using e m by auto
    qed
  qed
next
  case (elems_last p j)
  then show ?case by simp
next
  case (elems_cons p q ps j)
  have 1: "\<forall>m. p \<le> m \<and> m < q \<and> IsComplex (ns ! m) \<longrightarrow> (\<exists>j'. value_at ns m j')" by fact
  have 2: "\<forall>m. hd (q # ps) \<le> m \<and> m < j \<and> IsComplex (ns ! m) \<longrightarrow> (\<exists>j'. value_at ns m j')"
    by fact
  show ?case
  proof (intro allI impI)
    fix m assume m: "hd (p # q # ps) \<le> m \<and> m < j \<and> IsComplex (ns ! m)"
    show "\<exists>j'. value_at ns m j'"
      using 1 2 m by (cases "m < q") auto
  qed
next
  case (props_last k j)
  have 1: "\<forall>m. Suc k \<le> m \<and> m < j \<and> IsComplex (ns ! m) \<longrightarrow> (\<exists>j'. value_at ns m j')" by fact
  have k: "IsKey (ns ! k)" by fact
  show ?case
  proof (intro allI impI)
    fix m assume m: "hd [k] \<le> m \<and> m < j \<and> IsComplex (ns ! m)"
    then have "m \<noteq> k" using k by (auto simp: IsKey_def IsComplex_def IsArray_def IsObject_def)
    then show "\<exists>j'. value_at ns m j'" using 1 m by auto
  qed
next
  case (props_cons k q ks j)
  have 1: "\<forall>m. Suc k \<le> m \<and> m < q \<and> IsComplex (ns ! m) \<longrightarrow> (\<exists>j'. value_at ns m j')" by fact
  have 2: "\<forall>m. hd (q # ks) \<le> m \<and> m < j \<and> IsComplex (ns ! m) \<longrightarrow> (\<exists>j'. value_at ns m j')"
    by fact
  have k: "IsKey (ns ! k)" by fact
  show ?case
  proof (intro allI impI)
    fix m assume m: "hd (k # q # ks) \<le> m \<and> m < j \<and> IsComplex (ns ! m)"
    then have "m \<noteq> k" using k by (auto simp: IsKey_def IsComplex_def IsArray_def IsObject_def)
    then show "\<exists>j'. value_at ns m j'" using 1 2 m by (cases "m < q") auto
  qed
qed

lemma top_level_values:
  "top_level ns j \<Longrightarrow> m < j \<Longrightarrow> IsComplex (ns ! m) \<Longrightarrow> \<exists>j'. value_at ns m j'"
proof (induction rule: top_level.induct)
  case start
  then show ?case by simp
next
  case (root i j)
  show ?case
  proof (cases "m < i")
    case True
    then show ?thesis using root.IH root.prems by simp
  next
    case False
    then show ?thesis using sub_values [of ns i j] root.hyps(3) root.prems by auto
  qed
qed

lemma chains:
  "(value_at ns i j \<longrightarrow> True)
 \<and> (elems ns ps j \<longrightarrow> chain_from ns (hd ps) ps)
 \<and> (props ns ks j \<longrightarrow> chain_from ns (hd ks) ks \<and> chain_from ns (Suc (hd ks)) (map Suc ks)
        \<and> (\<forall>k\<in>set ks. IsKey (ns ! k)))"
proof (induct rule: value_at_elems_props.induct)
  case (elems_last p j)
  have "value_at ns p j" by fact
  then have "p < length ns" using value_at_bounds by fastforce
  moreover have "nxt (ns ! p) = None" by fact
  ultimately show ?case by simp
next
  case (elems_cons p q ps j)
  have "value_at ns p q" by fact
  then have "p < length ns" using value_at_bounds by fastforce
  moreover have "nxt (ns ! p) = Some q" by fact
  moreover have "chain_from ns (hd (q # ps)) (q # ps)" by fact
  ultimately show ?case by simp
next
  case (props_last k j)
  have "value_at ns (Suc k) j" by fact
  then have "Suc k < length ns" using value_at_bounds by fastforce
  moreover have "nxt (ns ! k) = None" "nxt (ns ! Suc k) = None" "IsKey (ns ! k)" by fact+
  ultimately show ?case by simp
next
  case (props_cons k q ks j)
  have "value_at ns (Suc k) q" by fact
  then have "Suc k < length ns" using value_at_bounds by fastforce
  moreover have "nxt (ns ! k) = Some q" "nxt (ns ! Suc k) = Some (Suc q)" "IsKey (ns ! k)" by fact+
  moreover have "chain_from ns (hd (q # ks)) (q # ks) \<and> chain_from ns (Suc (hd (q # ks))) (map Suc (q # ks))
     \<and> (\<forall>k\<in>set (q # ks). IsKey (ns ! k))" by fact
  ultimately show ?case by simp
qed simp_all

lemma array_children:
  assumes "value_at ns i j" "IsArray (ns ! i)"
  shows "count (ns ! i) = 0
       \<or> (\<exists>es. chain_from ns (Suc i) es \<and> count (ns ! i) = length es)"
  using assms(1)
proof (cases rule: value_at.cases)
  case scalar
  then show ?thesis using assms(2) by (auto simp: scalar_type_def IsArray_def)
next
  case empty
  then show ?thesis by simp
next
  case (array ps)
  then show ?thesis using chains [of ns i j "Suc i # ps"] by (auto intro!: exI [of _ "Suc i # ps"])
next
  case (object ks)
  then show ?thesis using assms(2) by (auto simp: IsObject_def IsArray_def)
qed

lemma object_children:
  assumes "value_at ns i j" "IsObject (ns ! i)"
  shows "count (ns ! i) = 0
       \<or> (\<exists>ks. chain_from ns (Suc i) ks \<and> chain_from ns (Suc (Suc i)) (map Suc ks)
               \<and> (\<forall>k\<in>set ks. IsKey (ns ! k)) \<and> count (ns ! i) = length ks)"
  using assms(1)
proof (cases rule: value_at.cases)
  case scalar
  then show ?thesis using assms(2) by (auto simp: scalar_type_def IsObject_def)
next
  case empty
  then show ?thesis by simp
next
  case (array ps)
  then show ?thesis using assms(2) by (auto simp: IsObject_def IsArray_def)
next
  case (object ks)
  then show ?thesis
    using chains [of ns i j _ "Suc i # ks"] by (auto intro!: exI [of _ "Suc i # ks"])
qed

lemma Parse_flattened:
  assumes "Parse s (Some c) st0 = Inr st" "m_errorCode st = VALID_JSON"
  shows "flattened (m_nodes st)"
proof -
  from Parse_valid [OF assms] obtain stL st1 st2 where
    L: "Parse_loop (parse_fuel s) s (skipWhitespace_lines s (fresh c st0)) = Inr (True, stL)"
    and adv: "advance s stL = Inr st1"
    and push: "pushNode st1 = Inr (True, st2)"
    and st: "st = st2\<lparr>m_errorCode := VALID_JSON\<rparr>"
    by blast
  have ns1: "m_nodes st1 = m_nodes stL" "m_tokenCapacity st1 = m_tokenCapacity stL"
    using advance_fields [OF adv] by auto
  obtain n where n: "make_node (m_currentToken st1) = Inr n"
    and ns2: "m_nodes st2 = m_nodes stL @ [n]"
    and cap: "length (m_nodes stL) < m_tokenCapacity stL"
    using pushNode_fields [OF push] ns1 by auto
  have "tok_type (m_currentToken st1) = JSON_EOF_TOK"
    using advance_eof [OF adv Parse_loop_end [OF L]] .
  then have eof: "IsEOF n" using make_node_fields [OF n] by (simp add: node_type_of_def IsEOF_def)
  have "top_level (m_nodes (skipWhitespace_lines s (fresh c st0)))
          (length (m_nodes (skipWhitespace_lines s (fresh c st0))))"
    by (simp add: skipWhitespace_lines_def fresh_def Let_def top_level.start)
  from Parse_loop_structure [OF L cap this]
  have "top_level (m_nodes stL) (length (m_nodes stL))" .
  then have "top_level (m_nodes st) (length (m_nodes stL))"
    by (rule top_level_frame) (simp_all add: st ns2)
  then show ?thesis
    unfolding flattened_def using eof by (auto simp: st ns2 intro!: exI [of _ "length (m_nodes stL)"])
qed

lemma Parse_after_SetUp: "Parse s None (SetUp capacity) = Parse s (Some capacity) (SetUp capacity)"
  by (simp add: Parse_def SetUp_def IsValid_def)

text \<open>
  C3. After a parse into a new buffer that ends with the status \<open>VALID_JSON\<close>, the
  buffer is flattened: it is a sequence of containers, each with its subtree in
  pre-order, followed by the end-of-input node. For every array node with a non-zero
  \<^verbatim>\<open>count\<close> the \<^verbatim>\<open>next\<close> links from the slot behind it run through exactly \<^verbatim>\<open>count\<close>
  elements and end with no \<^verbatim>\<open>next\<close>; for every object node they run through \<^verbatim>\<open>count\<close>
  keys, and from the slot behind the first key through the \<^verbatim>\<open>count\<close> values, each value
  being the node behind its key.
\<close>

theorem C3_flattening_invariant:
  assumes "Parse s (Some capacity) st0 = Inr st" and "m_errorCode st = VALID_JSON"
  shows "flattened (m_nodes st)
       \<and> (\<forall>i<length (m_nodes st).
            (IsArray (m_nodes st ! i) \<longrightarrow>
               count (m_nodes st ! i) = 0
               \<or> (\<exists>es. chain_from (m_nodes st) (i + 1) es \<and> count (m_nodes st ! i) = length es))
          \<and> (IsObject (m_nodes st ! i) \<longrightarrow>
               count (m_nodes st ! i) = 0
               \<or> (\<exists>ks. chain_from (m_nodes st) (i + 1) ks
                      \<and> chain_from (m_nodes st) (i + 2) (map Suc ks)
                      \<and> (\<forall>k\<in>set ks. IsKey (m_nodes st ! k))
                      \<and> count (m_nodes st ! i) = length ks)))"
proof -
  let ?ns = "m_nodes st"
  have f: "flattened ?ns" using assms by (rule Parse_flattened)
  then obtain j where j: "top_level ?ns j" "length ?ns = Suc j" "IsEOF (?ns ! j)"
    by (auto simp: flattened_def)
  have v: "\<exists>j'. value_at ?ns i j'" if "i < length ?ns" "IsComplex (?ns ! i)" for i
  proof -
    have "i \<noteq> j" using that(2) j(3) by (auto simp: IsEOF_def IsComplex_def IsArray_def IsObject_def)
    then have "i < j" using that(1) j(2) by simp
    then show ?thesis using top_level_values [OF j(1)] that(2) by blast
  qed
  have a: "count (?ns ! i) = 0
           \<or> (\<exists>es. chain_from ?ns (i + 1) es \<and> count (?ns ! i) = length es)"
    if "i < length ?ns" "IsArray (?ns ! i)" for i
    using v [OF that(1)] that(2) array_children [of ?ns i] by (auto simp: IsComplex_def)
  have b: "count (?ns ! i) = 0
           \<or> (\<exists>ks. chain_from ?ns (i + 1) ks \<and> chain_from ?ns (i + 2) (map Suc ks)
                  \<and> (\<forall>k\<in>set ks. IsKey (?ns ! k)) \<and> count (?ns ! i) = length ks)"
    if "i < length ?ns" "IsObject (?ns ! i)" for i
    using v [OF that(1)] that(2) object_children [of ?ns i] by (auto simp: IsComplex_def)
  show ?thesis using f a b by blast
qed

theorem C3_flattening_invariant_witness:
  "map_sum id m_nodes (Parse ''[7,8]'' (Some 8) (SetUp 0)) = Inr doc_two_elements
   \<and> flattened doc_two_elements
   \<and> (\<exists>es. chain_from doc_two_elements 1 es \<and> count (doc_two_elements ! 0) = length es)"
proof -
  have p: "Parse ''[7,8]'' (Some 8) (SetUp 0) =
           Inr \<lparr>m_pos = 5, m_errorCode = VALID_JSON, m_nodes = doc_two_elements,
                m_tokenCapacity = 8,
                m_currentToken = \<lparr>tok_data = 5, tok_length = 0, tok_type = JSON_EOF_TOK\<rparr>,
                m_currentLine = 1, m_errorLog = []\<rparr>"
    by code_simp
  have v: "m_errorCode \<lparr>m_pos = 5, m_errorCode = VALID_JSON, m_nodes = doc_two_elements,
                m_tokenCapacity = 8,
                m_currentToken = \<lparr>tok_data = 5, tok_length = 0, tok_type = JSON_EOF_TOK\<rparr>,
                m_currentLine = 1, m_errorLog = []\<rparr> = VALID_JSON"
    by simp
  have c: "flattened doc_two_elements
       \<and> (\<forall>i<length doc_two_elements.
            (IsArray (doc_two_elements ! i) \<longrightarrow>
               count (doc_two_elements ! i) = 0
               \<or> (\<exists>es. chain_from doc_two_elements (i + 1) es
                      \<and> count (doc_two_elements ! i) = length es))
          \<and> (IsObject (doc_two_elements ! i) \<longrightarrow>
               count (doc_two_elements ! i) = 0
               \<or> (\<exists>ks. chain_from doc_two_elements (i + 1) ks
                      \<and> chain_from doc_two_elements (i + 2) (map Suc ks)
                      \<and> (\<forall>k\<in>set ks. IsKey (doc_two_elements ! k))
                      \<and> count (doc_two_elements ! i) = length ks)))"
    using C3_flattening_invariant [OF p v] by simp
  have 0: "0 < length doc_two_elements" "IsArray (doc_two_elements ! 0)"
    "count (doc_two_elements ! 0) \<noteq> 0"
    by (simp_all add: doc_two_elements_def IsArray_def)
  have "\<exists>es. chain_from doc_two_elements 1 es \<and> count (doc_two_elements ! 0) = length es"
    using c 0 by fastforce
  then show ?thesis using c p by simp
qed

section \<open>What a valid parse has at the top level\<close>





text \<open>
  The input without any token is valid as well.
\<close>

lemma empty_input_valid:
  "map_sum id (\<lambda>st. (m_errorCode st, map type (m_nodes st))) (Parse [] (Some 8) (SetUp 0))
   = Inr (VALID_JSON, [JSON_EOF])"
  by code_simp



section \<open>The capacity of the buffer\<close>








































text \<open>
  Once an append has failed, the status and the number of nodes stay as they are up to
  the end of the loop of \<^verbatim>\<open>Parse\<close>, also where the result of \<^verbatim>\<open>pushNode\<close> is not looked at.
\<close>

definition exceeded :: "nat \<Rightarrow> JsonParser \<Rightarrow> bool" where
  "exceeded n st =
     (m_errorCode st = CAPACITY_EXCEEDED \<and> length (m_nodes st) = n
      \<and> \<not> length (m_nodes st) < m_tokenCapacity st)"

lemma expect_exceeded:
  "expect b msg st = Inr (r, st') \<Longrightarrow> exceeded n st \<Longrightarrow> exceeded n st'"
  by (auto simp: expect_def exceeded_def appendToErrorLog_def dest!: pushNode_fields
      split: sum.splits if_splits prod.splits)

lemma Parse_loop_exceeded:
  assumes "Parse_loop f s st = Inr (r, st')" "exceeded n st"
  shows "exceeded n st'"
proof (rule Parse_loop_invariant [where P = "exceeded n" and s = s, OF _ _ _ _ _ _ assms],
    goal_cases)
  case (1 st st')
  then show ?case by (auto simp: exceeded_def dest!: advance_fields)
next
  case (2 st r st')
  then show ?case by (auto simp: exceeded_def dest!: pushNode_fields split: if_splits)
next
  case (3 b msg st r st')
  then show ?case by (rule expect_exceeded)
next
  case (4 c st st')
  then show ?case by (auto simp: exceeded_def dest!: increment_count_fields)
next
  case (5 a b st st')
  then show ?case by (auto simp: exceeded_def dest!: link_previous_fields)
next
  case (6 st)
  then show ?case by (simp add: exceeded_def)
qed





end
